theory Spec2Isabelle
  imports Main "HOL-Library.Multiset"
begin

section \<open>Python strings\<close>

text \<open>
  A Python \<open>str\<close> is a sequence of Unicode code points, so a string is modelled as a list
  of code points (natural numbers), not as a list of bytes.  Literals of the script are
  written with \<open>str\<close>, which maps the characters of an ASCII literal to their code points.
\<close>

type_synonym codepoint = nat
type_synonym pystr = "codepoint list"

definition str :: "string \<Rightarrow> pystr" where
  "str s = map of_char s"

text \<open>
  The separator of \<open>line.split('-')\<close> is U+002D.
\<close>

abbreviation hyphen :: codepoint where
  "hyphen \<equiv> 45"

text \<open>
  \<open>str.strip()\<close> without argument removes the code points for which \<open>str.isspace\<close>
  holds; \<open>str.splitlines()\<close> breaks at the line boundaries of the language reference.
\<close>

definition isspace :: "codepoint \<Rightarrow> bool" where
  "isspace c \<longleftrightarrow>
     (9 \<le> c \<and> c \<le> 13) \<or> (28 \<le> c \<and> c \<le> 32) \<or> c = 133 \<or> c = 160 \<or> c = 5760 \<or>
     (8192 \<le> c \<and> c \<le> 8202) \<or> c = 8232 \<or> c = 8233 \<or> c = 8239 \<or> c = 8287 \<or>
     c = 12288"

definition islinebreak :: "codepoint \<Rightarrow> bool" where
  "islinebreak c \<longleftrightarrow>
     (10 \<le> c \<and> c \<le> 13) \<or> (28 \<le> c \<and> c \<le> 30) \<or> c = 133 \<or> c = 8232 \<or> c = 8233"

definition str_lstrip :: "pystr \<Rightarrow> pystr" where
  "str_lstrip s = dropWhile isspace s"

definition str_rstrip :: "pystr \<Rightarrow> pystr" where
  "str_rstrip s = rev (dropWhile isspace (rev s))"

definition str_strip :: "pystr \<Rightarrow> pystr" where
  "str_strip s = str_rstrip (str_lstrip s)"

text \<open>
  \<open>cons_to_first c xs\<close> puts \<open>c\<close> in front of the first string of \<open>xs\<close>.
\<close>

fun cons_to_first :: "codepoint \<Rightarrow> pystr list \<Rightarrow> pystr list" where
  "cons_to_first c [] = [[c]]"
| "cons_to_first c (l # ls) = (c # l) # ls"

text \<open>
  \<open>s.splitlines()\<close>: the lines of \<open>s\<close> without their line boundaries.  A carriage
  return followed by a line feed is one boundary; a boundary at the very end of the text
  does not open a further, empty line; the empty text has no line at all.
\<close>

fun str_splitlines :: "pystr \<Rightarrow> pystr list" where
  "str_splitlines [] = []"
| "str_splitlines [c] = (if islinebreak c then [[]] else [[c]])"
| "str_splitlines (c # c' # cs) =
     (if c = 13 \<and> c' = 10 then [] # str_splitlines cs
      else if islinebreak c then [] # str_splitlines (c' # cs)
      else cons_to_first c (str_splitlines (c' # cs)))"

text \<open>
  \<open>s.split(sep)\<close> for a separator of one code point: every occurrence of the separator
  ends a part, so a text with \<open>n\<close> separators has \<open>n + 1\<close> parts, and the empty text has
  the single part \<open>''\<close>.
\<close>

fun str_split :: "codepoint \<Rightarrow> pystr \<Rightarrow> pystr list" where
  "str_split sep [] = [[]]"
| "str_split sep (c # cs) =
     (if c = sep then [] # str_split sep cs else cons_to_first c (str_split sep cs))"

section \<open>Errors\<close>

text \<open>
  The exceptions the script can raise: the two \<open>ValueError\<close>s of unpacking a sequence
  into two names, and the \<open>OSError\<close> of \<open>open\<close>.
\<close>

datatype error = NotEnoughValues | TooManyValues | OSError

text \<open>
  \<open>a, b = xs\<close>: unpacking needs exactly two elements.
\<close>

fun unpack2 :: "'a list \<Rightarrow> error + ('a \<times> 'a)" where
  "unpack2 [] = Inl NotEnoughValues"
| "unpack2 [a] = Inl NotEnoughValues"
| "unpack2 [a, b] = Inr (a, b)"
| "unpack2 (a # b # c # xs) = Inl TooManyValues"

section \<open>The dictionary\<close>

text \<open>
  A Python \<open>dict\<close> keeps its keys in insertion order, and that order is what
  \<open>json.dump\<close> writes, so \<open>course_dict\<close> is an association list with its keys in
  insertion order.
\<close>

type_synonym course_dict = "(pystr \<times> pystr list) list"

definition dict_contains :: "course_dict \<Rightarrow> pystr \<Rightarrow> bool" where
  "dict_contains d k \<longleftrightarrow> k \<in> set (map fst d)"

text \<open>
  \<open>d[k].append(v)\<close>, for a key that is present (the script guards the call with
  \<open>k in d\<close>): the list bound to \<open>k\<close> grows at its end, the key keeps its place.
\<close>

definition dict_append :: "course_dict \<Rightarrow> pystr \<Rightarrow> pystr \<Rightarrow> course_dict" where
  "dict_append d k v = map (\<lambda>(k', vs). if k' = k then (k', vs @ [v]) else (k', vs)) d"

text \<open>
  \<open>d[k] = vs\<close>: a present key keeps its place and gets the new value, an absent key is
  added after all the others.
\<close>

definition dict_setitem :: "course_dict \<Rightarrow> pystr \<Rightarrow> pystr list \<Rightarrow> course_dict" where
  "dict_setitem d k vs =
     (if dict_contains d k then map (\<lambda>(k', vs'). if k' = k then (k', vs) else (k', vs')) d
      else d @ [(k, vs)])"

section \<open>The Course Grouper\<close>

text \<open>
  The body of the \<open>for\<close> loop of \<open>process_courses\<close>, for one line and the dictionary
  built so far.
\<close>

definition loop_body :: "course_dict \<Rightarrow> pystr \<Rightarrow> error + course_dict" where
  "loop_body d line =
     (case unpack2 (str_split hyphen line) of
        Inl e \<Rightarrow> Inl e
      | Inr (subject, course_num) \<Rightarrow>
          if dict_contains d subject then Inr (dict_append d subject course_num)
          else Inr (dict_setitem d subject [course_num]))"

text \<open>
  The \<open>for\<close> loop: the lines in order, stopping at the first exception.
\<close>

fun for_lines :: "pystr list \<Rightarrow> course_dict \<Rightarrow> error + course_dict" where
  "for_lines [] d = Inr d"
| "for_lines (line # rest) d =
     (case loop_body d line of Inl e \<Rightarrow> Inl e | Inr d' \<Rightarrow> for_lines rest d')"

definition process_courses :: "pystr \<Rightarrow> error + course_dict" where
  "process_courses course_list = for_lines (str_splitlines (str_strip course_list)) []"

text \<open>
  The same loop as a relation between the lines still to read, the dictionary built so
  far and the outcome of the run, one rule for each way through the loop body.
\<close>

inductive grouping :: "pystr list \<Rightarrow> course_dict \<Rightarrow> error + course_dict \<Rightarrow> bool" where
  finished: "grouping [] d (Inr d)"
| raised: "unpack2 (str_split hyphen line) = Inl e \<Longrightarrow> grouping (line # rest) d (Inl e)"
| appended:
    "unpack2 (str_split hyphen line) = Inr (subject, course_num) \<Longrightarrow>
     dict_contains d subject \<Longrightarrow>
     grouping rest (dict_append d subject course_num) r \<Longrightarrow>
     grouping (line # rest) d r"
| created:
    "unpack2 (str_split hyphen line) = Inr (subject, course_num) \<Longrightarrow>
     \<not> dict_contains d subject \<Longrightarrow>
     grouping rest (dict_setitem d subject [course_num]) r \<Longrightarrow>
     grouping (line # rest) d r"

inductive run_of :: "pystr \<Rightarrow> error + course_dict \<Rightarrow> bool" where
  run: "grouping (str_splitlines (str_strip course_list)) [] r \<Longrightarrow> run_of course_list r"

section \<open>Serialisation\<close>

text \<open>
  \<open>json.dump(course_dict, json_file, indent=2)\<close> for a dictionary from strings to lists
  of strings, with the defaults of the call: \<open>ensure_ascii=True\<close>, the separators
  \<open>','\<close> and \<open>': '\<close>.  The definitions follow the encoder of the standard library
  (\<open>encode_basestring_ascii\<close>, and \<open>_iterencode_list\<close> and \<open>_iterencode_dict\<close> for these
  types of values); the text written to the file is what the encoder yields, piece after
  piece.  Inside a string, the quote, the backslash and the control characters with a
  short escape are written with it, every other code point outside \<open>' '\<close> to \<open>'~'\<close> as
  \<open>\uXXXX\<close> with four lower-case hexadecimal digits, and a code point beyond U+FFFF as the
  two escapes of its surrogate pair.
\<close>

definition hexdigit :: "nat \<Rightarrow> codepoint" where
  "hexdigit n = (if n < 10 then 48 + n else 87 + n)"

definition hex4 :: "nat \<Rightarrow> pystr" where
  "hex4 n = [hexdigit (n div 4096 mod 16), hexdigit (n div 256 mod 16),
             hexdigit (n div 16 mod 16), hexdigit (n mod 16)]"

definition escape_u :: "nat \<Rightarrow> pystr" where
  "escape_u n = 92 # 117 # hex4 n"

definition escape_ascii :: "codepoint \<Rightarrow> pystr" where
  "escape_ascii c =
     (if c = 34 then [92, 34]
      else if c = 92 then [92, 92]
      else if c = 8 then [92, 98]
      else if c = 12 then [92, 102]
      else if c = 10 then [92, 110]
      else if c = 13 then [92, 114]
      else if c = 9 then [92, 116]
      else if 32 \<le> c \<and> c \<le> 126 then [c]
      else if c < 65536 then escape_u c
      else escape_u (55296 + (c - 65536) div 1024 mod 1024) @
           escape_u (56320 + (c - 65536) mod 1024))"

definition encode_basestring_ascii :: "pystr \<Rightarrow> pystr" where
  "encode_basestring_ascii s = 34 # concat (map escape_ascii s) @ [34]"

text \<open>
  With an indentation, every item of a non-empty container starts on a line of its own,
  indented by two spaces for each level of nesting; an empty container is written as
  \<open>[]\<close> or \<open>{}\<close>.
\<close>

definition newline_indent :: "nat \<Rightarrow> pystr" where
  "newline_indent level = 10 # concat (replicate level (str ''  ''))"

fun join :: "pystr \<Rightarrow> pystr list \<Rightarrow> pystr" where
  "join sep [] = []"
| "join sep [x] = x"
| "join sep (x # y # ys) = x @ sep @ join sep (y # ys)"

definition iterencode_list :: "nat \<Rightarrow> pystr list \<Rightarrow> pystr" where
  "iterencode_list level lst =
     (if lst = [] then str ''[]''
      else str ''['' @ newline_indent (Suc level) @
           join (str '','' @ newline_indent (Suc level)) (map encode_basestring_ascii lst) @
           newline_indent level @ str '']'')"

definition iterencode_item :: "nat \<Rightarrow> pystr \<times> pystr list \<Rightarrow> pystr" where
  "iterencode_item level item =
     encode_basestring_ascii (fst item) @ str '': '' @ iterencode_list level (snd item)"

definition iterencode_dict :: "nat \<Rightarrow> course_dict \<Rightarrow> pystr" where
  "iterencode_dict level dct =
     (if dct = [] then str ''{}''
      else str ''{'' @ newline_indent (Suc level) @
           join (str '','' @ newline_indent (Suc level)) (map (iterencode_item (Suc level)) dct) @
           newline_indent level @ str ''}'')"

definition json_dump :: "course_dict \<Rightarrow> pystr" where
  "json_dump obj = iterencode_dict 0 obj"

section \<open>Reading the file back\<close>

text \<open>
  \<open>json.load\<close>, as far as it reads an object whose values are arrays of strings, which
  is the shape \<open>json.dump\<close> writes for a \<open>course_dict\<close>; \<open>None\<close> stands for a
  \<open>JSONDecodeError\<close>, and for a text of another shape, which this model does not read.
  The definitions follow the decoder of the standard library (\<open>scanstring\<close>,
  \<open>_decode_uXXXX\<close>, the table \<open>BACKSLASH\<close>, \<open>JSONArray\<close>, \<open>JSONObject\<close> and \<open>decode\<close>),
  with the text still to read in the place of an index into the text.  Between the tokens
  the decoder skips the white space of JSON.
\<close>

definition is_json_ws :: "codepoint \<Rightarrow> bool" where
  "is_json_ws c \<longleftrightarrow> c = 32 \<or> c = 9 \<or> c = 10 \<or> c = 13"

definition skip_ws :: "pystr \<Rightarrow> pystr" where
  "skip_ws s = dropWhile is_json_ws s"

text \<open>
  The four hexadecimal digits of a \<open>\uXXXX\<close> escape, in either case.
\<close>

definition hexval :: "codepoint \<Rightarrow> nat option" where
  "hexval c =
     (if 48 \<le> c \<and> c \<le> 57 then Some (c - 48)
      else if 97 \<le> c \<and> c \<le> 102 then Some (c - 87)
      else if 65 \<le> c \<and> c \<le> 70 then Some (c - 55)
      else None)"

fun decode_uXXXX :: "pystr \<Rightarrow> nat option" where
  "decode_uXXXX (a # b # c # d # rest) =
     (case (hexval a, hexval b, hexval c, hexval d) of
        (Some w, Some x, Some y, Some z) \<Rightarrow> Some (((w * 16 + x) * 16 + y) * 16 + z)
      | _ \<Rightarrow> None)"
| "decode_uXXXX _ = None"

text \<open>
  The escapes of one character after a backslash.
\<close>

definition backslash :: "codepoint \<Rightarrow> codepoint option" where
  "backslash esc =
     (if esc = 34 then Some 34
      else if esc = 92 then Some 92
      else if esc = 47 then Some 47
      else if esc = 98 then Some 8
      else if esc = 102 then Some 12
      else if esc = 110 then Some 10
      else if esc = 114 then Some 13
      else if esc = 116 then Some 9
      else None)"

text \<open>
  \<open>and_then x r\<close> puts \<open>x\<close> in front of what the rest of a scan returns.
\<close>

definition and_then :: "'a \<Rightarrow> ('a list \<times> pystr) option \<Rightarrow> ('a list \<times> pystr) option" where
  "and_then x r = (case r of None \<Rightarrow> None | Some (xs, rest) \<Rightarrow> Some (x # xs, rest))"

text \<open>
  \<open>scanstring\<close> reads a string from behind its opening quote and returns it with the
  text behind its closing quote.  A control character inside the string is an error.  A
  \<open>\uXXXX\<close> escape of a high surrogate that is directly followed by the escape of a low
  surrogate is read, with it, as the one code point beyond U+FFFF that the pair encodes.
\<close>

function scanstring :: "pystr \<Rightarrow> (pystr \<times> pystr) option" where
  "scanstring [] = None"
| "scanstring (c # cs) =
     (if c = 34 then Some ([], cs)
      else if c = 92 then
        (case cs of
           [] \<Rightarrow> None
         | esc # cs' \<Rightarrow>
             if esc \<noteq> 117 then
               (case backslash esc of
                  None \<Rightarrow> None
                | Some char \<Rightarrow> and_then char (scanstring cs'))
             else
               (case decode_uXXXX cs' of
                  None \<Rightarrow> None
                | Some uni \<Rightarrow>
                    if 55296 \<le> uni \<and> uni \<le> 56319 \<and> take 2 (drop 4 cs') = [92, 117] then
                      (case decode_uXXXX (drop 6 cs') of
                         None \<Rightarrow> None
                       | Some uni2 \<Rightarrow>
                           if 56320 \<le> uni2 \<and> uni2 \<le> 57343
                           then and_then (65536 + ((uni - 55296) * 1024 + (uni2 - 56320)))
                                  (scanstring (drop 10 cs'))
                           else and_then uni (scanstring (drop 4 cs')))
                    else and_then uni (scanstring (drop 4 cs'))))
      else if c < 32 then None
      else and_then c (scanstring cs))"
  by pat_completeness auto
termination
  by (relation "measure length") auto

declare scanstring.simps [simp del]

text \<open>
  A scan consumes at least the closing quote, which is why the loops below end.
\<close>

lemma and_then_Some:
  "and_then x r = Some (v, rest) \<longleftrightarrow> (\<exists>v'. r = Some (v', rest) \<and> v = x # v')"
  by (auto simp: and_then_def split: option.splits)

lemma scanstring_shorter: "scanstring s = Some (v, rest) \<Longrightarrow> length rest < length s"
proof (induction s arbitrary: v rest rule: length_induct)
  case (1 s)
  have step: "length rest < length s"
    if "and_then x (scanstring ys) = Some (v, rest)" and "length ys < length s" for x ys
  proof -
    from that(1) obtain v' where "scanstring ys = Some (v', rest)"
      by (auto simp: and_then_Some)
    with "1.IH" that(2) have "length rest < length ys"
      by blast
    with that(2) show ?thesis by simp
  qed
  show ?case
  proof (cases s)
    case Nil
    with "1.prems" show ?thesis by (simp add: scanstring.simps)
  next
    case (Cons c cs)
    with "1.prems" have p: "scanstring (c # cs) = Some (v, rest)"
      by simp
    show ?thesis
    proof (cases cs)
      case Nil
      from p step [of _ "[]"] show ?thesis
        unfolding Cons Nil by (subst (asm) scanstring.simps) (auto split: if_splits)
    next
      case inner: (Cons esc cs')
      from p step [of _ cs] step [of _ cs'] step [of _ "drop 4 cs'"] step [of _ "drop 10 cs'"]
      show ?thesis
        unfolding Cons inner
        by (subst (asm) scanstring.simps) (auto split: if_splits option.splits)
    qed
  qed
qed

lemma skip_ws_length: "length (skip_ws s) \<le> length s"
  by (simp add: skip_ws_def length_dropWhile_le)

text \<open>
  The items of an array from its first item on, and the array from behind its \<open>[\<close>.
\<close>

function array_items :: "pystr \<Rightarrow> (pystr list \<times> pystr) option" where
  "array_items s =
     (case s of
        [] \<Rightarrow> None
      | c # cs \<Rightarrow>
          if c \<noteq> 34 then None
          else
            (case scanstring cs of
               None \<Rightarrow> None
             | Some (v, rest) \<Rightarrow>
                 (case skip_ws rest of
                    [] \<Rightarrow> None
                  | nextchar # rest' \<Rightarrow>
                      if nextchar = 93 then Some ([v], rest')
                      else if nextchar = 44 then and_then v (array_items (skip_ws rest'))
                      else None)))"
  by pat_completeness auto
termination
proof (relation "measure length", goal_cases)
  case 1
  show ?case by simp
next
  case (2 s c cs x2 v rest nextchar rest')
  from 2 have "length rest < length cs"
    by (auto dest: scanstring_shorter)
  moreover from 2 have "length rest' < length rest"
    using skip_ws_length [of rest] by simp
  moreover have "length (skip_ws rest') \<le> length rest'"
    by (rule skip_ws_length)
  ultimately show ?case using 2 by simp
qed

declare array_items.simps [simp del]

definition JSONArray :: "pystr \<Rightarrow> (pystr list \<times> pystr) option" where
  "JSONArray s =
     (case skip_ws s of
        [] \<Rightarrow> None
      | nextchar # rest \<Rightarrow> if nextchar = 93 then Some ([], rest) else array_items (nextchar # rest))"

lemma array_items_shorter: "array_items s = Some (vs, rest) \<Longrightarrow> length rest < length s"
proof (induction s arbitrary: vs rule: length_induct)
  case (1 s)
  from "1.prems" obtain cs v r1 nextchar r2 where
    s: "s = 34 # cs" and v: "scanstring cs = Some (v, r1)" and n: "skip_ws r1 = nextchar # r2"
    and r: "nextchar = 93 \<and> rest = r2 \<or>
            nextchar = 44 \<and> (\<exists>vs'. array_items (skip_ws r2) = Some (vs', rest))"
    by (subst (asm) array_items.simps)
       (auto simp: and_then_Some split: list.splits if_splits option.splits)
  from v have 1: "length r1 < length cs"
    by (rule scanstring_shorter)
  from n have 2: "length r2 < length r1"
    using skip_ws_length [of r1] by simp
  have 3: "length (skip_ws r2) \<le> length r2"
    by (rule skip_ws_length)
  from r show ?case
  proof
    assume "nextchar = 93 \<and> rest = r2"
    with 1 2 s show ?thesis by simp
  next
    assume "nextchar = 44 \<and> (\<exists>vs'. array_items (skip_ws r2) = Some (vs', rest))"
    then obtain vs' where "array_items (skip_ws r2) = Some (vs', rest)"
      by blast
    moreover from 1 2 3 s have "length (skip_ws r2) < length s"
      by simp
    ultimately have "length rest < length (skip_ws r2)"
      using "1.IH" by blast
    with 1 2 3 s show ?thesis by simp
  qed
qed

lemma JSONArray_shorter: "JSONArray s = Some (vs, rest) \<Longrightarrow> length rest \<le> length s"
  using skip_ws_length [of s]
  by (auto simp: JSONArray_def split: list.splits if_splits dest!: array_items_shorter)

text \<open>
  The members of an object from behind the opening quote of a key, and the object from
  behind its \<open>{\<close>.
\<close>

function object_items :: "pystr \<Rightarrow> (course_dict \<times> pystr) option" where
  "object_items s =
     (case scanstring s of
        None \<Rightarrow> None
      | Some (key, rest) \<Rightarrow>
          (case skip_ws rest of
             [] \<Rightarrow> None
           | colon # rest1 \<Rightarrow>
               if colon \<noteq> 58 then None
               else
                 (case skip_ws rest1 of
                    [] \<Rightarrow> None
                  | bracket # rest2 \<Rightarrow>
                      if bracket \<noteq> 91 then None
                      else
                        (case JSONArray rest2 of
                           None \<Rightarrow> None
                         | Some (value, rest3) \<Rightarrow>
                             (case skip_ws rest3 of
                                [] \<Rightarrow> None
                              | nextchar # rest4 \<Rightarrow>
                                  if nextchar = 125 then Some ([(key, value)], rest4)
                                  else if nextchar = 44 then
                                    (case skip_ws rest4 of
                                       [] \<Rightarrow> None
                                     | quote # rest5 \<Rightarrow>
                                         if quote \<noteq> 34 then None
                                         else and_then (key, value) (object_items rest5))
                                  else None)))))"
  by pat_completeness auto
termination
proof (relation "measure length", goal_cases)
  case 1
  show ?case by simp
next
  case (2 s x2 key rest colon rest1 bracket rest2 x2a "value" rest3 nextchar rest4 quote rest5)
  from 2 have "length rest < length s"
    by (auto dest: scanstring_shorter)
  moreover from 2 have "length rest1 < length rest"
    using skip_ws_length [of rest] by simp
  moreover from 2 have "length rest2 < length rest1"
    using skip_ws_length [of rest1] by simp
  moreover from 2 have "length rest3 \<le> length rest2"
    by (auto dest: JSONArray_shorter)
  moreover from 2 have "length rest4 < length rest3"
    using skip_ws_length [of rest3] by simp
  moreover from 2 have "length rest5 < length rest4"
    using skip_ws_length [of rest4] by simp
  ultimately show ?case by simp
qed

declare object_items.simps [simp del]

definition JSONObject :: "pystr \<Rightarrow> (course_dict \<times> pystr) option" where
  "JSONObject s =
     (case skip_ws s of
        [] \<Rightarrow> None
      | nextchar # rest \<Rightarrow>
          if nextchar = 125 then Some ([], rest)
          else if nextchar = 34 then object_items rest
          else None)"

text \<open>
  The decoder collects the members as pairs and builds the dictionary with \<open>dict(pairs)\<close>;
  the whole text must be one object, with nothing but white space around it.
\<close>

definition dict_of_pairs :: "course_dict \<Rightarrow> course_dict" where
  "dict_of_pairs pairs = foldl (\<lambda>d item. dict_setitem d (fst item) (snd item)) [] pairs"

definition json_load :: "pystr \<Rightarrow> course_dict option" where
  "json_load s =
     (case skip_ws s of
        [] \<Rightarrow> None
      | nextchar # rest \<Rightarrow>
          if nextchar \<noteq> 123 then None
          else
            (case JSONObject rest of
               None \<Rightarrow> None
             | Some (pairs, rest') \<Rightarrow>
                 if skip_ws rest' = [] then Some (dict_of_pairs pairs) else None))"

section \<open>The script\<close>

text \<open>
  What the script can change: the files it can see, and the lines it has printed.
  \<open>can_open\<close> says for which paths \<open>open(path, 'w')\<close> succeeds.
\<close>

record world =
  files :: "pystr \<Rightarrow> pystr option"
  can_open :: "pystr \<Rightarrow> bool"
  printed :: "pystr list"

definition courses :: pystr where
  "courses = str ''\<newline>''"

text \<open>
  The statements of the module after the function definition, for a given value of the
  constant \<open>courses\<close>.  An exception ends the run where it is raised: the statements
  after it do not run.  The outcome is the uncaught exception, if there is one, and the
  world the run leaves.
\<close>

definition run_script :: "pystr \<Rightarrow> world \<Rightarrow> error option \<times> world" where
  "run_script course_list w =
     (case process_courses course_list of
        Inl e \<Rightarrow> (Some e, w)
      | Inr course_dict \<Rightarrow>
          if \<not> can_open w (str ''subject_data.json'') then (Some OSError, w)
          else (None,
                w\<lparr>files := (files w)(str ''subject_data.json'' \<mapsto> json_dump course_dict),
                  printed := printed w @ [str ''Data successfully written to subject_data.json.'']\<rparr>))"

definition main :: "world \<Rightarrow> error option \<times> world" where
  "main w = run_script courses w"

text \<open>
  A world with no file yet, in which every file can be opened.
\<close>

definition fresh_world :: world where
  "fresh_world = \<lparr>files = Map.empty, can_open = (\<lambda>path. True), printed = []\<rparr>"

section \<open>Notions of the specification\<close>

text \<open>
  A line is blank when trimming leaves nothing of it.
\<close>

definition blank :: "pystr \<Rightarrow> bool" where
  "blank l \<longleftrightarrow> str_strip l = []"

text \<open>
  A block is well formed when each of its lines that is not blank contains exactly one
  separator.  It has no blank line inside when no line of the trimmed block is blank.
\<close>

definition well_formed_block :: "pystr \<Rightarrow> bool" where
  "well_formed_block s \<longleftrightarrow>
     list_all (\<lambda>l. blank l \<or> count_list l hyphen = 1) (str_splitlines s)"

definition no_blank_inside :: "pystr \<Rightarrow> bool" where
  "no_blank_inside s \<longleftrightarrow> list_all (\<lambda>l. \<not> blank l) (str_splitlines (str_strip s))"

text \<open>
  The text before the first separator of a line, and the text after it.
\<close>

definition line_subject :: "pystr \<Rightarrow> pystr" where
  "line_subject l = takeWhile (\<lambda>c. c \<noteq> hyphen) l"

definition line_number :: "pystr \<Rightarrow> pystr" where
  "line_number l = tl (dropWhile (\<lambda>c. c \<noteq> hyphen) l)"

text \<open>
  What the loop body does to the dictionary for a subject and a course number, and for a
  line with one separator.
\<close>

definition add_course :: "course_dict \<Rightarrow> pystr \<Rightarrow> pystr \<Rightarrow> course_dict" where
  "add_course d subject course_num =
     (if dict_contains d subject then dict_append d subject course_num
      else dict_setitem d subject [course_num])"

definition add_line :: "course_dict \<Rightarrow> pystr \<Rightarrow> course_dict" where
  "add_line d l = add_course d (line_subject l) (line_number l)"

text \<open>
  The (subject, course number) pairs a dictionary holds, and how many course numbers.
\<close>

definition dict_pairs :: "course_dict \<Rightarrow> (pystr \<times> pystr) list" where
  "dict_pairs d = concat (map (\<lambda>item. map (Pair (fst item)) (snd item)) d)"

definition total_courses :: "course_dict \<Rightarrow> nat" where
  "total_courses d = sum_list (map (\<lambda>item. length (snd item)) d)"

text \<open>
  The elements of a list in the order of their first appearance.
\<close>

fun first_appearance :: "'a list \<Rightarrow> 'a list" where
  "first_appearance [] = []"
| "first_appearance (x # xs) = x # filter (\<lambda>y. y \<noteq> x) (first_appearance xs)"

text \<open>
  Every key of a dictionary is bound to a list with at least one element.
\<close>

definition nonempty_values :: "course_dict \<Rightarrow> bool" where
  "nonempty_values d \<longleftrightarrow> list_all (\<lambda>item. snd item \<noteq> []) d"

text \<open>
  The strings that come back from the file as they were written: code points of Unicode,
  with no high surrogate directly followed by a low surrogate.
\<close>

definition high_surrogate :: "codepoint \<Rightarrow> bool" where
  "high_surrogate c \<longleftrightarrow> 55296 \<le> c \<and> c \<le> 56319"

definition low_surrogate :: "codepoint \<Rightarrow> bool" where
  "low_surrogate c \<longleftrightarrow> 56320 \<le> c \<and> c \<le> 57343"

fun no_surrogate_pair :: "pystr \<Rightarrow> bool" where
  "no_surrogate_pair (a # b # cs) \<longleftrightarrow>
     \<not> (high_surrogate a \<and> low_surrogate b) \<and> no_surrogate_pair (b # cs)"
| "no_surrogate_pair cs \<longleftrightarrow> True"

definition json_safe :: "pystr \<Rightarrow> bool" where
  "json_safe s \<longleftrightarrow> list_all (\<lambda>c. c < 1114112) s \<and> no_surrogate_pair s"

definition json_safe_dict :: "course_dict \<Rightarrow> bool" where
  "json_safe_dict d \<longleftrightarrow>
     list_all (\<lambda>item. json_safe (fst item) \<and> list_all json_safe (snd item)) d"

section \<open>Lines before and after the trim\<close>

text \<open>
  What trimming the whole text does to its lines: the blank lines in front go and the
  first line that stays loses its leading space; likewise at the end.
\<close>

definition lstrip_lines :: "pystr list \<Rightarrow> pystr list" where
  "lstrip_lines ls = (case dropWhile blank ls of [] \<Rightarrow> [] | l # r \<Rightarrow> str_lstrip l # r)"

definition rstrip_lines :: "pystr list \<Rightarrow> pystr list" where
  "rstrip_lines ls =
     rev (case dropWhile blank (rev ls) of [] \<Rightarrow> [] | l # r \<Rightarrow> str_rstrip l # r)"

text \<open>
  The visible text of the lines that are not blank.
\<close>

definition visible :: "pystr \<Rightarrow> pystr" where
  "visible l = filter (\<lambda>c. \<not> isspace c) l"

definition content :: "pystr list \<Rightarrow> pystr list" where
  "content ls = filter (\<lambda>l. l \<noteq> []) (map visible ls)"

section \<open>Evaluation\<close>

text \<open>
  The definitions that evaluating the script on a concrete text unfolds.
\<close>

lemmas script_defs =
  process_courses_def str_def str_strip_def str_lstrip_def str_rstrip_def isspace_def
  islinebreak_def loop_body_def dict_contains_def dict_append_def dict_setitem_def
  json_dump_def iterencode_dict_def iterencode_item_def iterencode_list_def newline_indent_def
  encode_basestring_ascii_def escape_ascii_def escape_u_def hex4_def hexdigit_def
  run_script_def main_def courses_def fresh_world_def line_subject_def
  line_number_def well_formed_block_def no_blank_inside_def

lemmas json_defs = script_defs json_load_def JSONObject_def object_items.simps JSONArray_def
  array_items.simps scanstring.simps and_then_def backslash_def hexval_def skip_ws_def
  is_json_ws_def dict_of_pairs_def

section \<open>Properties of strings and lines\<close>

subsection \<open>Blank lines\<close>

lemma islinebreak_isspace: "islinebreak c \<Longrightarrow> isspace c"
  by (auto simp: islinebreak_def isspace_def)

lemma hyphen_not_space [simp]: "\<not> isspace hyphen"
  by (simp add: isspace_def)

lemma dropWhile_all_iff: "(\<forall>x\<in>set (dropWhile P l). P x) \<longleftrightarrow> (\<forall>x\<in>set l. P x)"
  by (induction l) auto

lemma blank_iff: "blank l \<longleftrightarrow> (\<forall>c\<in>set l. isspace c)"
  by (simp add: blank_def str_strip_def str_rstrip_def str_lstrip_def dropWhile_eq_Nil_conv
      dropWhile_all_iff)

lemma blank_Nil [simp]: "blank []"
  by (simp add: blank_iff)

lemma blank_Cons [simp]: "blank (c # l) \<longleftrightarrow> isspace c \<and> blank l"
  by (simp add: blank_iff)

lemma blank_append [simp]: "blank (a @ b) \<longleftrightarrow> blank a \<and> blank b"
  by (auto simp: blank_iff)

lemma strip_blank: "blank s \<Longrightarrow> str_strip s = []"
  by (simp add: blank_def)

subsection \<open>Trimming\<close>

lemma lstrip_Cons: "str_lstrip (c # s) = (if isspace c then str_lstrip s else c # s)"
  by (simp add: str_lstrip_def)

lemma rstrip_Nil [simp]: "str_rstrip [] = []"
  by (simp add: str_rstrip_def)

lemma rstrip_Cons: "str_rstrip (c # s) = (if blank (c # s) then [] else c # str_rstrip s)"
  by (auto simp: str_rstrip_def dropWhile_append blank_iff dropWhile_eq_Nil_conv)

lemma rstrip_eq_Nil [simp]: "str_rstrip s = [] \<longleftrightarrow> blank s"
  by (simp add: str_rstrip_def blank_iff dropWhile_eq_Nil_conv)

lemma lstrip_blank_append: "blank a \<Longrightarrow> str_lstrip (a @ s) = str_lstrip s"
  by (simp add: str_lstrip_def blank_iff dropWhile_append)

lemma rstrip_append_blank: "blank b \<Longrightarrow> str_rstrip (s @ b) = str_rstrip s"
  by (simp add: str_rstrip_def blank_iff dropWhile_append)

lemma lstrip_append_nonblank: "\<not> blank s \<Longrightarrow> str_lstrip (s @ b) = str_lstrip s @ b"
  by (auto simp: str_lstrip_def blank_iff dropWhile_append)

lemma strip_pad: "blank a \<Longrightarrow> blank b \<Longrightarrow> str_strip (a @ s @ b) = str_strip s"
proof (cases "blank s")
  case True
  assume "blank a" "blank b"
  with True show ?thesis by (simp add: strip_blank)
next
  case False
  assume "blank a" "blank b"
  with False show ?thesis
    by (simp add: str_strip_def lstrip_blank_append lstrip_append_nonblank rstrip_append_blank)
qed

subsection \<open>Lines\<close>

lemma splitlines_Cons_other:
  "\<not> islinebreak c \<Longrightarrow> str_splitlines (c # s) = cons_to_first c (str_splitlines s)"
  by (cases s) (auto simp: islinebreak_def)

lemma splitlines_Cons_break:
  "islinebreak c \<Longrightarrow> \<not> (c = 13 \<and> (\<exists>t. s = 10 # t)) \<Longrightarrow>
   str_splitlines (c # s) = [] # str_splitlines s"
  by (cases s) auto

lemma splitlines_eq_Nil [simp]: "str_splitlines s = [] \<longleftrightarrow> s = []"
  by (induction s rule: str_splitlines.induct)
     (auto split: if_splits elim: cons_to_first.elims)

lemma cons_to_first_blank [simp]:
  "list_all blank (cons_to_first c L) \<longleftrightarrow> isspace c \<and> list_all blank L"
  by (cases L) auto

lemma splitlines_all_blank: "list_all blank (str_splitlines s) \<longleftrightarrow> blank s"
  by (induction s rule: str_splitlines.induct) (auto simp: isspace_def islinebreak_def)

subsection \<open>The lines of a trimmed text\<close>

lemma lstrip_lines_cons_to_first:
  "lstrip_lines (cons_to_first c L) = (if isspace c then lstrip_lines L else cons_to_first c L)"
  by (cases L) (auto simp: lstrip_lines_def str_lstrip_def)

lemma lstrip_lines_blank_Cons: "blank l \<Longrightarrow> lstrip_lines (l # L) = lstrip_lines L"
  by (simp add: lstrip_lines_def)

lemma lstrip_lines_nonblank_Cons: "\<not> blank l \<Longrightarrow> lstrip_lines (l # L) = str_lstrip l # L"
  by (simp add: lstrip_lines_def)

lemma lstrip_lines_Nil [simp]: "lstrip_lines [] = []"
  by (simp add: lstrip_lines_def)

lemma splitlines_lstrip: "str_splitlines (str_lstrip s) = lstrip_lines (str_splitlines s)"
proof (induction s rule: str_splitlines.induct)
  case 1
  show ?case by (simp add: str_lstrip_def)
next
  case (2 c)
  show ?case by (auto simp: lstrip_Cons lstrip_lines_def str_lstrip_def dest: islinebreak_isspace)
next
  case (3 c c' cs)
  show ?case
  proof (cases "c = 13 \<and> c' = 10")
    case True
    have sp: "isspace 13" "isspace 10" by (simp_all add: isspace_def)
    from True 3(1) sp show ?thesis
      by (simp add: lstrip_Cons lstrip_lines_blank_Cons)
  next
    case crlf: False
    show ?thesis
    proof (cases "islinebreak c")
      case True
      with crlf have "str_splitlines (c # c' # cs) = [] # str_splitlines (c' # cs)"
        by (intro splitlines_Cons_break) auto
      with True crlf 3(2) show ?thesis
        by (simp add: lstrip_Cons [of c] islinebreak_isspace lstrip_lines_blank_Cons
            del: str_splitlines.simps)
    next
      case False
      with crlf 3(3) show ?thesis
        by (simp add: lstrip_Cons [of c] lstrip_lines_cons_to_first splitlines_Cons_other
            del: str_splitlines.simps)
    qed
  qed
qed

lemma rstrip_lines_Nil [simp]: "rstrip_lines [] = []"
  by (simp add: rstrip_lines_def)

lemma rstrip_lines_Cons:
  "rstrip_lines (l # L) =
     (if list_all blank L then (if blank l then [] else [str_rstrip l]) else l # rstrip_lines L)"
  by (auto simp: rstrip_lines_def dropWhile_append list_all_iff dropWhile_eq_Nil_conv
      split: list.splits)

lemma rstrip_lines_cons_to_first:
  "rstrip_lines (cons_to_first c L) =
     (if list_all blank L \<and> isspace c then [] else cons_to_first c (rstrip_lines L))"
  by (cases L) (auto simp: rstrip_lines_Cons rstrip_Cons)

lemma splitlines_rstrip: "str_splitlines (str_rstrip s) = rstrip_lines (str_splitlines s)"
proof (induction s rule: str_splitlines.induct)
  case 1
  show ?case by simp
next
  case (2 c)
  show ?case by (auto simp: rstrip_Cons rstrip_lines_Cons dest: islinebreak_isspace)
next
  case (3 c c' cs)
  show ?case
  proof (cases "c = 13 \<and> c' = 10")
    case True
    have sp: "isspace 13" "isspace 10" by (simp_all add: isspace_def)
    from True 3(1) sp show ?thesis
      by (simp add: rstrip_Cons rstrip_lines_Cons splitlines_all_blank)
  next
    case crlf: False
    show ?thesis
    proof (cases "islinebreak c")
      case True
      with crlf have L: "str_splitlines (c # c' # cs) = [] # str_splitlines (c' # cs)"
        by (intro splitlines_Cons_break) auto
      show ?thesis
      proof (cases "blank (c' # cs)")
        case b: True
        with True show ?thesis
          by (simp add: L rstrip_Cons [of c] islinebreak_isspace rstrip_lines_Cons
              splitlines_all_blank del: str_splitlines.simps)
      next
        case b: False
        then have "str_rstrip (c' # cs) = c' # str_rstrip cs"
          by (simp add: rstrip_Cons)
        with crlf True
        have "str_splitlines (c # str_rstrip (c' # cs)) =
              [] # str_splitlines (str_rstrip (c' # cs))"
          by (intro splitlines_Cons_break) auto
        moreover from b have "\<not> blank (c # c' # cs)"
          by simp
        moreover from crlf True 3(2)
        have "str_splitlines (str_rstrip (c' # cs)) = rstrip_lines (str_splitlines (c' # cs))"
          by blast
        ultimately show ?thesis using b
          by (simp add: L rstrip_Cons [of c "c' # cs"] rstrip_lines_Cons splitlines_all_blank
              del: str_splitlines.simps blank_Cons)
      qed
    next
      case False
      with crlf 3(3) show ?thesis
        by (simp add: rstrip_Cons [of c "c' # cs"] rstrip_lines_cons_to_first
            splitlines_Cons_other splitlines_all_blank del: str_splitlines.simps)
    qed
  qed
qed

lemma splitlines_strip:
  "str_splitlines (str_strip s) = rstrip_lines (lstrip_lines (str_splitlines s))"
  by (simp add: str_strip_def splitlines_rstrip splitlines_lstrip)

subsection \<open>The visible text of the lines\<close>

lemma visible_eq_Nil [simp]: "visible l = [] \<longleftrightarrow> blank l"
  by (auto simp: visible_def blank_iff filter_empty_conv)

lemma visible_lstrip [simp]: "visible (str_lstrip l) = visible l"
  by (induction l) (auto simp: visible_def str_lstrip_def)

lemma visible_rev: "visible (rev l) = rev (visible l)"
  by (simp add: visible_def rev_filter)

lemma visible_rstrip [simp]: "visible (str_rstrip l) = visible l"
proof -
  have "visible (rev (str_lstrip (rev l))) = visible l"
    by (simp only: visible_rev visible_lstrip rev_rev_ident)
  then show ?thesis by (simp add: str_rstrip_def str_lstrip_def)
qed

lemma blank_lstrip [simp]: "blank (str_lstrip l) \<longleftrightarrow> blank l"
  by (simp flip: visible_eq_Nil)

lemma blank_rstrip [simp]: "blank (str_rstrip l) \<longleftrightarrow> blank l"
  by (simp flip: visible_eq_Nil)

lemma count_visible: "\<not> isspace c \<Longrightarrow> count_list (visible l) c = count_list l c"
  by (induction l) (auto simp: visible_def)

lemma content_Nil [simp]: "content [] = []"
  by (simp add: content_def)

lemma content_Cons: "content (l # L) = (if blank l then content L else visible l # content L)"
  by (simp add: content_def)

lemma content_all_blank: "list_all blank L \<Longrightarrow> content L = []"
  by (induction L) (auto simp: content_Cons)

lemma content_lstrip_lines: "content (lstrip_lines L) = content L"
  by (induction L)
     (auto simp: content_Cons lstrip_lines_blank_Cons lstrip_lines_nonblank_Cons)

lemma content_rstrip_lines: "content (rstrip_lines L) = content L"
  by (induction L) (auto simp: content_Cons rstrip_lines_Cons content_all_blank)

lemma content_strip: "content (str_splitlines (str_strip s)) = content (str_splitlines s)"
  by (simp add: splitlines_strip content_rstrip_lines content_lstrip_lines)

lemma length_content: "length (content L) = length (filter (\<lambda>l. \<not> blank l) L)"
  by (induction L) (auto simp: content_Cons)

lemma content_no_blank: "\<forall>l\<in>set L. \<not> blank l \<Longrightarrow> length (content L) = length L"
  by (induction L) (auto simp: content_Cons)

lemma in_content: "l \<in> set L \<Longrightarrow> \<not> blank l \<Longrightarrow> visible l \<in> set (content L)"
  by (auto simp: content_def)

lemma content_from: "v \<in> set (content L) \<Longrightarrow> \<exists>l\<in>set L. visible l = v"
  by (auto simp: content_def)

lemma line_survives_strip:
  assumes "l \<in> set (str_splitlines s)" and "\<not> blank l"
  shows "\<exists>l'\<in>set (str_splitlines (str_strip s)). visible l' = visible l"
proof -
  from assms have "visible l \<in> set (content (str_splitlines (str_strip s)))"
    by (simp add: content_strip in_content)
  then show ?thesis by (rule content_from)
qed

section \<open>Properties of the loop\<close>

subsection \<open>Splitting a line\<close>

lemma split_not_Nil [simp]: "str_split sep s \<noteq> []"
  by (induction s) (auto elim: cons_to_first.elims)

lemma length_cons_to_first: "L \<noteq> [] \<Longrightarrow> length (cons_to_first c L) = length L"
  by (cases L) auto

lemma length_split: "length (str_split sep s) = Suc (count_list s sep)"
  by (induction s) (auto simp: length_cons_to_first)

lemma split_no_sep: "sep \<notin> set s \<Longrightarrow> str_split sep s = [s]"
  by (induction s) auto

lemma split_one_sep:
  "count_list l sep = 1 \<Longrightarrow>
   str_split sep l = [takeWhile (\<lambda>c. c \<noteq> sep) l, tl (dropWhile (\<lambda>c. c \<noteq> sep) l)]"
  by (induction l) (auto simp: split_no_sep count_list_0_iff)

lemma unpack2_length:
  "unpack2 xs =
     (if length xs < 2 then Inl NotEnoughValues
      else if length xs = 2 then Inr (xs ! 0, xs ! 1) else Inl TooManyValues)"
  by (induction xs rule: unpack2.induct) auto

lemma unpack2_split:
  "unpack2 (str_split hyphen l) =
     (if count_list l hyphen = 0 then Inl NotEnoughValues
      else if count_list l hyphen = 1 then Inr (line_subject l, line_number l)
      else Inl TooManyValues)"
proof (cases "count_list l hyphen = 1")
  case True
  then show ?thesis
    by (simp add: split_one_sep line_subject_def line_number_def)
next
  case False
  then show ?thesis
    by (auto simp: unpack2_length length_split)
qed

subsection \<open>The loop\<close>

lemma loop_body_eq:
  "loop_body d l =
     (if count_list l hyphen = 0 then Inl NotEnoughValues
      else if count_list l hyphen = 1 then Inr (add_line d l)
      else Inl TooManyValues)"
  by (simp add: loop_body_def unpack2_split add_line_def add_course_def)

lemma for_lines_eq:
  "for_lines ls d =
     (case find (\<lambda>l. count_list l hyphen \<noteq> 1) ls of
        None \<Rightarrow> Inr (foldl add_line d ls)
      | Some l \<Rightarrow> Inl (if count_list l hyphen = 0 then NotEnoughValues else TooManyValues))"
  by (induction ls arbitrary: d) (auto simp: loop_body_eq split: option.splits)

lemma for_lines_Inr_iff:
  "for_lines ls d = Inr d' \<longleftrightarrow>
     (\<forall>l\<in>set ls. count_list l hyphen = 1) \<and> d' = foldl add_line d ls"
  by (auto simp: for_lines_eq find_None_iff split: option.splits dest: find_Some_iff [THEN iffD1])

lemma for_lines_raises:
  "\<exists>l\<in>set ls. count_list l hyphen \<noteq> 1 \<Longrightarrow> \<exists>e. for_lines ls d = Inl e"
  by (cases "for_lines ls d") (auto simp: for_lines_Inr_iff)

lemma for_lines_append:
  "for_lines (xs @ ys) d =
     (case for_lines xs d of Inl e \<Rightarrow> Inl e | Inr d' \<Rightarrow> for_lines ys d')"
  by (induction xs arbitrary: d) (auto split: sum.splits)

lemma grouping_for_lines: "grouping ls d (for_lines ls d)"
proof (induction ls arbitrary: d)
  case Nil
  show ?case by (simp add: grouping.finished)
next
  case (Cons l ls)
  show ?case
  proof (cases "unpack2 (str_split hyphen l)")
    case (Inl e)
    then show ?thesis by (simp add: loop_body_def grouping.raised)
  next
    case (Inr p)
    obtain subject course_num where p: "p = (subject, course_num)" by (cases p)
    show ?thesis
    proof (cases "dict_contains d subject")
      case True
      with Inr p Cons [of "dict_append d subject course_num"] show ?thesis
        by (auto simp: loop_body_def intro: grouping.appended)
    next
      case False
      with Inr p Cons [of "dict_setitem d subject [course_num]"] show ?thesis
        by (auto simp: loop_body_def intro: grouping.created)
    qed
  qed
qed

lemma grouping_unique: "grouping ls d r \<Longrightarrow> r = for_lines ls d"
  by (induction rule: grouping.induct) (auto simp: loop_body_def)

lemma grouping_iff: "grouping ls d r \<longleftrightarrow> r = for_lines ls d"
  using grouping_for_lines grouping_unique by blast

lemma run_of_iff: "run_of s r \<longleftrightarrow> r = process_courses s"
  by (auto simp: process_courses_def grouping_iff elim: run_of.cases intro: run_of.intros)

subsection \<open>Keys\<close>

lemma keys_dict_append [simp]: "map fst (dict_append d k v) = map fst d"
  by (induction d) (auto simp: dict_append_def)

lemma keys_add_course:
  "map fst (add_course d k v) = (if k \<in> set (map fst d) then map fst d else map fst d @ [k])"
  by (simp add: add_course_def dict_contains_def dict_setitem_def)

lemma distinct_add_course: "distinct (map fst d) \<Longrightarrow> distinct (map fst (add_course d k v))"
  by (simp add: keys_add_course)

lemma first_appearance_filter: "first_appearance (filter P xs) = filter P (first_appearance xs)"
proof (induction xs)
  case Nil
  show ?case by simp
next
  case (Cons x xs)
  have "filter (\<lambda>y. y \<noteq> x) (filter P (first_appearance xs)) =
        filter P (filter (\<lambda>y. y \<noteq> x) (first_appearance xs))"
    by (simp add: conj_commute)
  moreover have "filter P (first_appearance xs) =
        filter P (filter (\<lambda>y. y \<noteq> x) (first_appearance xs))" if "\<not> P x"
    using that by (auto intro: filter_cong)
  ultimately show ?case using Cons by simp
qed

lemma set_first_appearance [simp]: "set (first_appearance xs) = set xs"
  by (induction xs) auto

lemma distinct_first_appearance [simp]: "distinct (first_appearance xs)"
  by (induction xs) auto

lemma keys_foldl:
  "map fst (foldl add_line d ls) =
     map fst d @ first_appearance (filter (\<lambda>k. k \<notin> set (map fst d)) (map line_subject ls))"
proof (induction ls arbitrary: d)
  case Nil
  show ?case by simp
next
  case (Cons l ls)
  let ?k = "line_subject l"
  show ?case
  proof (cases "?k \<in> set (map fst d)")
    case True
    then have "map fst (add_line d l) = map fst d"
      by (simp add: add_line_def keys_add_course)
    with True Cons [of "add_line d l"] show ?thesis by simp
  next
    case False
    then have k: "map fst (add_line d l) = map fst d @ [?k]"
      by (simp add: add_line_def keys_add_course)
    have eq: "filter (\<lambda>k. k \<notin> set (map fst d @ [?k])) xs =
          filter (\<lambda>y. y \<noteq> ?k) (filter (\<lambda>k. k \<notin> set (map fst d)) xs)" for xs
      by (auto intro: filter_cong)
    have "map fst (foldl add_line d (l # ls)) =
          map fst (add_line d l) @
          first_appearance (filter (\<lambda>k. k \<notin> set (map fst (add_line d l))) (map line_subject ls))"
      using Cons [of "add_line d l"] by simp
    also have "\<dots> = (map fst d @ [?k]) @
          filter (\<lambda>y. y \<noteq> ?k)
            (first_appearance (filter (\<lambda>k. k \<notin> set (map fst d)) (map line_subject ls)))"
      by (simp only: k first_appearance_filter eq)
    finally show ?thesis using False by simp
  qed
qed

lemma distinct_foldl: "distinct (map fst d) \<Longrightarrow> distinct (map fst (foldl add_line d ls))"
  by (induction ls arbitrary: d) (auto simp: add_line_def distinct_add_course)

subsection \<open>Values\<close>

lemma map_of_dict_append:
  "map_of (dict_append d k v) k' =
     (if k' = k then map_option (\<lambda>vs. vs @ [v]) (map_of d k) else map_of d k')"
  by (induction d) (auto simp: dict_append_def)

lemma map_of_add_course:
  "map_of (add_course d k v) k' =
     (if k' = k then Some ((case map_of d k of None \<Rightarrow> [] | Some vs \<Rightarrow> vs) @ [v])
      else map_of d k')"
proof (cases "dict_contains d k")
  case True
  then have "map_of d k \<noteq> None"
    by (simp add: dict_contains_def map_of_eq_None_iff)
  then obtain vs where "map_of d k = Some vs"
    by auto
  with True show ?thesis
    by (simp add: add_course_def map_of_dict_append)
next
  case False
  then have "map_of d k = None"
    by (simp add: dict_contains_def map_of_eq_None_iff)
  with False show ?thesis
    by (auto simp: add_course_def dict_setitem_def map_add_def split: option.splits)
qed

lemma values_foldl:
  "map_of (foldl add_line d ls) k =
     (if k \<in> set (map line_subject ls)
      then Some ((case map_of d k of None \<Rightarrow> [] | Some vs \<Rightarrow> vs) @
                 map line_number (filter (\<lambda>l. line_subject l = k) ls))
      else map_of d k)"
  by (induction ls arbitrary: d)
     (auto simp: add_line_def map_of_add_course filter_empty_conv image_iff)

subsection \<open>Pairs\<close>

lemma dict_pairs_append [simp]: "dict_pairs (d @ e) = dict_pairs d @ dict_pairs e"
  by (simp add: dict_pairs_def)

lemma dict_append_absent: "k \<notin> set (map fst d) \<Longrightarrow> dict_append d k v = d"
  by (induction d) (auto simp: dict_append_def)

lemma mset_pairs_dict_append:
  "distinct (map fst d) \<Longrightarrow> k \<in> set (map fst d) \<Longrightarrow>
   mset (dict_pairs (dict_append d k v)) = add_mset (k, v) (mset (dict_pairs d))"
proof (induction d)
  case Nil
  then show ?case by simp
next
  case (Cons item d)
  show ?case
  proof (cases "fst item = k")
    case True
    with Cons.prems have "dict_append d k v = d"
      by (intro dict_append_absent) simp
    with True show ?thesis
      by (cases item) (simp add: dict_pairs_def dict_append_def)
  next
    case False
    with Cons show ?thesis
      by (cases item) (auto simp: dict_pairs_def dict_append_def)
  qed
qed

lemma mset_pairs_add_course:
  "distinct (map fst d) \<Longrightarrow>
   mset (dict_pairs (add_course d k v)) = add_mset (k, v) (mset (dict_pairs d))"
proof (cases "dict_contains d k")
  case True
  assume "distinct (map fst d)"
  with True show ?thesis
    by (simp add: add_course_def mset_pairs_dict_append dict_contains_def)
next
  case False
  then show ?thesis
    by (simp add: add_course_def dict_setitem_def dict_pairs_def)
qed

lemma mset_pairs_foldl:
  "distinct (map fst d) \<Longrightarrow>
   mset (dict_pairs (foldl add_line d ls)) =
     mset (dict_pairs d) + mset (map (\<lambda>l. (line_subject l, line_number l)) ls)"
proof (induction ls arbitrary: d)
  case Nil
  show ?case by simp
next
  case (Cons l ls)
  from Cons.prems have "distinct (map fst (add_line d l))"
    by (simp add: add_line_def distinct_add_course)
  from Cons.IH [OF this] Cons.prems show ?case
    by (simp add: add_line_def mset_pairs_add_course)
qed

lemma length_dict_pairs: "length (dict_pairs d) = total_courses d"
  by (induction d) (auto simp: dict_pairs_def total_courses_def)

lemma total_foldl:
  assumes "distinct (map fst d)"
  shows "total_courses (foldl add_line d ls) = total_courses d + length ls"
proof -
  have "size (mset (dict_pairs (foldl add_line d ls))) =
        size (mset (dict_pairs d) + mset (map (\<lambda>l. (line_subject l, line_number l)) ls))"
    by (simp only: mset_pairs_foldl [OF assms])
  then show ?thesis by (simp add: length_dict_pairs)
qed

subsection \<open>Lists that are never empty\<close>

lemma nonempty_add_course: "nonempty_values d \<Longrightarrow> nonempty_values (add_course d k v)"
  by (auto simp: nonempty_values_def add_course_def dict_append_def dict_setitem_def list_all_iff
      split: if_splits)

lemma nonempty_foldl: "nonempty_values d \<Longrightarrow> nonempty_values (foldl add_line d ls)"
  by (induction ls arbitrary: d) (auto simp: add_line_def nonempty_add_course)

subsection \<open>Success and failure of the grouper\<close>

lemma process_courses_Inr_iff:
  "process_courses s = Inr d \<longleftrightarrow>
     (\<forall>l\<in>set (str_splitlines (str_strip s)). count_list l hyphen = 1) \<and>
     d = foldl add_line [] (str_splitlines (str_strip s))"
  by (simp add: process_courses_def for_lines_Inr_iff)

lemma process_courses_distinct: "process_courses s = Inr d \<Longrightarrow> distinct (map fst d)"
  by (simp add: process_courses_Inr_iff keys_foldl)

lemma process_courses_raises:
  "\<exists>l\<in>set (str_splitlines (str_strip s)). count_list l hyphen \<noteq> 1 \<Longrightarrow>
   \<exists>e. process_courses s = Inl e \<and> (e = NotEnoughValues \<or> e = TooManyValues)"
  by (auto simp: process_courses_def for_lines_eq find_None_iff split: option.splits)

lemma count_blank: "blank l \<Longrightarrow> count_list l hyphen = 0"
  by (auto simp: blank_iff count_list_0_iff)

lemma count_survives:
  assumes "visible l' = visible l"
  shows "count_list l' hyphen = count_list l hyphen"
proof -
  have "count_list (visible l') hyphen = count_list (visible l) hyphen"
    by (simp add: assms)
  then show ?thesis by (simp add: count_visible)
qed

lemma input_line_raises:
  assumes "l \<in> set (str_splitlines s)" and "\<not> blank l" and "count_list l hyphen \<noteq> 1"
  shows "\<exists>e. process_courses s = Inl e \<and> (e = NotEnoughValues \<or> e = TooManyValues)"
proof -
  from line_survives_strip [OF assms(1,2)]
  obtain l' where l': "l' \<in> set (str_splitlines (str_strip s))" "visible l' = visible l"
    by blast
  from count_survives [OF l'(2)] assms(3) have "count_list l' hyphen \<noteq> 1"
    by simp
  with l'(1) show ?thesis
    by (intro process_courses_raises) blast
qed

lemma lines_ok_iff:
  "(\<forall>l\<in>set (str_splitlines (str_strip s)). count_list l hyphen = 1) \<longleftrightarrow>
     well_formed_block s \<and> no_blank_inside s"
proof
  assume ok: "\<forall>l\<in>set (str_splitlines (str_strip s)). count_list l hyphen = 1"
  have "blank l \<or> count_list l hyphen = 1" if "l \<in> set (str_splitlines s)" for l
  proof (cases "blank l")
    case False
    from line_survives_strip [OF that False]
    obtain l' where l': "l' \<in> set (str_splitlines (str_strip s))" "visible l' = visible l"
      by blast
    from count_survives [OF l'(2)] l'(1) ok show ?thesis
      by simp
  qed simp
  moreover have "\<not> blank l" if "l \<in> set (str_splitlines (str_strip s))" for l
    using that ok count_blank [of l] by auto
  ultimately show "well_formed_block s \<and> no_blank_inside s"
    by (simp add: well_formed_block_def no_blank_inside_def list_all_iff)
next
  assume wf: "well_formed_block s \<and> no_blank_inside s"
  show "\<forall>l\<in>set (str_splitlines (str_strip s)). count_list l hyphen = 1"
  proof
    fix l'
    assume l': "l' \<in> set (str_splitlines (str_strip s))"
    with wf have nb: "\<not> blank l'"
      by (simp add: no_blank_inside_def list_all_iff)
    with l' have "visible l' \<in> set (content (str_splitlines (str_strip s)))"
      by (simp add: in_content)
    then have "visible l' \<in> set (content (str_splitlines s))"
      by (simp only: content_strip)
    then obtain l where l: "l \<in> set (str_splitlines s)" "visible l = visible l'"
      by (blast dest: content_from)
    from l(2) nb have "\<not> blank l"
      by (simp flip: visible_eq_Nil)
    with wf l(1) have "count_list l hyphen = 1"
      by (auto simp: well_formed_block_def list_all_iff)
    with count_survives [OF l(2)] show "count_list l' hyphen = 1"
      by simp
  qed
qed

lemma process_courses_pad:
  "blank a \<Longrightarrow> blank b \<Longrightarrow> process_courses (a @ s @ b) = process_courses s"
  by (simp add: process_courses_def strip_pad)

lemma run_script_raises: "process_courses s = Inl e \<Longrightarrow> run_script s w = (Some e, w)"
  by (simp add: run_script_def)

lemma process_courses_returns:
  assumes "well_formed_block s" and "no_blank_inside s"
  shows "process_courses s = Inr (foldl add_line [] (str_splitlines (str_strip s)))"
  using assms lines_ok_iff [of s] by (simp add: process_courses_Inr_iff)

lemma count_nonblank_lines:
  assumes "no_blank_inside s"
  shows "length (str_splitlines (str_strip s)) =
         length (filter (\<lambda>l. \<not> blank l) (str_splitlines s))"
proof -
  from assms have "length (content (str_splitlines (str_strip s))) =
                   length (str_splitlines (str_strip s))"
    by (intro content_no_blank) (simp add: no_blank_inside_def list_all_iff)
  then show ?thesis
    by (simp add: content_strip length_content)
qed

section \<open>Properties of the serialisation\<close>

subsection \<open>Hexadecimal digits\<close>

lemma hexval_hexdigit: "d < 16 \<Longrightarrow> hexval (hexdigit d) = Some d"
  by (auto simp: hexval_def hexdigit_def)

lemma hex_digits_value:
  fixes n :: nat
  assumes "n < 65536"
  shows "((n div 4096 mod 16 * 16 + n div 256 mod 16) * 16 + n div 16 mod 16) * 16 + n mod 16 = n"
proof -
  define q1 where "q1 = n div 16"
  define q2 where "q2 = q1 div 16"
  define q3 where "q3 = q2 div 16"
  define r0 where "r0 = n mod 16"
  define r1 where "r1 = q1 mod 16"
  define r2 where "r2 = q2 mod 16"
  have d2: "n div 256 = q2"
    unfolding q2_def q1_def by (simp add: div_mult2_eq [symmetric])
  have d3: "n div 4096 = q3"
    unfolding q3_def q2_def q1_def by (simp add: div_mult2_eq [symmetric])
  from assms have "q3 < 16"
    unfolding d3 [symmetric] by simp
  then have m3: "q3 mod 16 = q3"
    by simp
  have e0: "n = 16 * q1 + r0"
    unfolding q1_def r0_def by simp
  have e1: "q1 = 16 * q2 + r1"
    unfolding q2_def r1_def by simp
  have e2: "q2 = 16 * q3 + r2"
    unfolding q3_def r2_def by simp
  have "((q3 * 16 + r2) * 16 + r1) * 16 + r0 = n"
    using e0 e1 e2 by simp
  then show ?thesis
    unfolding d2 d3 m3 r0_def r1_def r2_def q1_def [symmetric] d2 .
qed

lemma decode_hex4: "n < 65536 \<Longrightarrow> decode_uXXXX (hex4 n @ r) = Some n"
  using hex_digits_value [of n] by (simp add: hex4_def hexval_hexdigit)

lemma length_hex4 [simp]: "length (hex4 n) = 4"
  by (simp add: hex4_def)

subsection \<open>Scanning an escaped string\<close>

lemma scanstring_quote: "scanstring (34 # r) = Some ([], r)"
  by (simp add: scanstring.simps)

lemma scanstring_plain:
  "c \<noteq> 34 \<Longrightarrow> c \<noteq> 92 \<Longrightarrow> 32 \<le> c \<Longrightarrow> scanstring (c # r) = and_then c (scanstring r)"
  by (simp add: scanstring.simps)

lemma scanstring_short:
  "backslash x = Some ch \<Longrightarrow> x \<noteq> 117 \<Longrightarrow>
   scanstring (92 # x # r) = and_then ch (scanstring r)"
  by (simp add: scanstring.simps)

lemma scanstring_u:
  assumes "n < 65536"
  shows "scanstring (escape_u n @ E) =
     (if high_surrogate n \<and> take 2 E = [92, 117] then
        (case decode_uXXXX (drop 2 E) of
           None \<Rightarrow> None
         | Some uni2 \<Rightarrow>
             if low_surrogate uni2
             then and_then (65536 + ((n - 55296) * 1024 + (uni2 - 56320))) (scanstring (drop 6 E))
             else and_then n (scanstring E))
      else and_then n (scanstring E))"
  by (simp add: escape_u_def scanstring.simps decode_hex4 [OF assms] high_surrogate_def
      low_surrogate_def cong: option.case_cong if_cong)

lemma short_escape:
  "c = 34 \<or> c = 92 \<or> c = 8 \<or> c = 12 \<or> c = 10 \<or> c = 13 \<or> c = 9 \<Longrightarrow>
   \<exists>x. escape_ascii c = [92, x] \<and> backslash x = Some c \<and> x \<noteq> 117"
  by (auto simp: escape_ascii_def backslash_def)

lemma escape_ascii_cases:
  obtains
    (short) x where "escape_ascii c = [92, x]" and "backslash x = Some c" and "x \<noteq> 117"
  | (plain) "escape_ascii c = [c]" and "c \<noteq> 34" and "c \<noteq> 92" and "32 \<le> c"
  | (unit) "escape_ascii c = escape_u c" and "c < 65536"
  | (pair) "escape_ascii c = escape_u (55296 + (c - 65536) div 1024 mod 1024) @
                             escape_u (56320 + (c - 65536) mod 1024)" and "65536 \<le> c"
proof (cases "c = 34 \<or> c = 92 \<or> c = 8 \<or> c = 12 \<or> c = 10 \<or> c = 13 \<or> c = 9")
  case True
  from short_escape [OF this] show ?thesis
    by (auto intro: short)
next
  case special: False
  show ?thesis
  proof (cases "32 \<le> c \<and> c \<le> 126")
    case True
    with special show ?thesis
      by (intro plain) (auto simp: escape_ascii_def)
  next
    case False
    with special show ?thesis
      by (cases "c < 65536") (auto simp: escape_ascii_def intro: unit pair)
  qed
qed

lemma next_unit:
  assumes "list_all (\<lambda>c. c < 1114112) s"
    and "take 2 (concat (map escape_ascii s) @ 34 # rest) = [92, 117]"
  shows "\<exists>u. decode_uXXXX (drop 2 (concat (map escape_ascii s) @ 34 # rest)) = Some u \<and>
             (low_surrogate u \<longrightarrow> (\<exists>s'. s = u # s'))"
proof (cases s)
  case Nil
  with assms(2) show ?thesis by simp
next
  case (Cons c s')
  show ?thesis
  proof (cases c rule: escape_ascii_cases)
    case (short x)
    with assms(2) Cons show ?thesis by simp
  next
    case plain
    with assms(2) Cons show ?thesis by simp
  next
    case unit
    with Cons show ?thesis
      by (simp add: escape_u_def decode_hex4)
  next
    case pair
    have "55296 + (c - 65536) div 1024 mod 1024 < 65536"
      by simp
    moreover have "\<not> low_surrogate (55296 + (c - 65536) div 1024 mod 1024)"
      by (simp add: low_surrogate_def)
    ultimately show ?thesis
      using pair Cons by (simp add: escape_u_def decode_hex4)
  qed
qed

lemma json_safe_Cons:
  "json_safe (c # s) \<longleftrightarrow>
     c < 1114112 \<and> json_safe s \<and> (\<forall>u s'. s = u # s' \<longrightarrow> \<not> (high_surrogate c \<and> low_surrogate u))"
  by (cases s) (auto simp: json_safe_def)

lemma json_safe_Nil [simp]: "json_safe []"
  by (simp add: json_safe_def)

lemma surrogate_pair_value:
  fixes c :: nat
  assumes "65536 \<le> c" and "c < 1114112"
  shows "65536 + ((55296 + (c - 65536) div 1024 mod 1024 - 55296) * 1024 +
                  (56320 + (c - 65536) mod 1024 - 56320)) = c"
proof -
  define m where "m = c - 65536"
  from assms have "m < 1048576"
    by (simp add: m_def)
  then have "m div 1024 < 1024"
    by simp
  then have "m div 1024 mod 1024 = m div 1024"
    by simp
  then have "m div 1024 mod 1024 * 1024 + m mod 1024 = m"
    by simp
  with assms(1) show ?thesis
    by (simp add: m_def)
qed

lemma scanstring_escaped:
  assumes "json_safe s"
  shows "scanstring (concat (map escape_ascii s) @ 34 # rest) = Some (s, rest)"
  using assms
proof (induction s)
  case Nil
  show ?case by (simp add: scanstring_quote)
next
  case (Cons c s)
  let ?E = "concat (map escape_ascii s) @ 34 # rest"
  from Cons.prems have c: "c < 1114112" and safe: "json_safe s"
    and pair_free: "\<And>u s'. s = u # s' \<Longrightarrow> \<not> (high_surrogate c \<and> low_surrogate u)"
    by (auto simp: json_safe_Cons)
  from Cons.IH [OF safe] have IH: "scanstring ?E = Some (s, rest)" .
  have goal: "scanstring (escape_ascii c @ ?E) = Some (c # s, rest)"
  proof (cases c rule: escape_ascii_cases)
    case (short x)
    with IH show ?thesis
      by (simp add: scanstring_short and_then_def)
  next
    case plain
    with IH show ?thesis
      by (simp add: scanstring_plain and_then_def)
  next
    case unit
    show ?thesis
    proof (cases "high_surrogate c \<and> take 2 ?E = [92, 117]")
      case True
      from safe have "list_all (\<lambda>c. c < 1114112) s"
        by (simp add: json_safe_def)
      from next_unit [OF this] True
      obtain u where u: "decode_uXXXX (drop 2 ?E) = Some u" "low_surrogate u \<longrightarrow> (\<exists>s'. s = u # s')"
        by blast
      with True pair_free have "\<not> low_surrogate u"
        by blast
      with u(1) True unit IH show ?thesis
        by (simp add: scanstring_u and_then_def)
    next
      case False
      with unit IH show ?thesis
        by (auto simp: scanstring_u and_then_def)
    qed
  next
    case pair
    let ?hi = "55296 + (c - 65536) div 1024 mod 1024"
    let ?lo = "56320 + (c - 65536) mod 1024"
    have hi: "?hi < 65536" "high_surrogate ?hi"
      by (simp_all add: high_surrogate_def)
    have lo: "?lo < 65536" "low_surrogate ?lo"
      by (simp_all add: low_surrogate_def)
    have "scanstring (escape_u ?hi @ (escape_u ?lo @ ?E)) =
          and_then (65536 + ((?hi - 55296) * 1024 + (?lo - 56320))) (scanstring ?E)"
      unfolding scanstring_u [OF hi(1)] using hi(2) lo
      by (simp add: escape_u_def decode_hex4)
    also have "\<dots> = Some (c # s, rest)"
      using IH surrogate_pair_value [OF pair(2) c] by (simp add: and_then_def)
    finally show ?thesis
      using pair(1) by simp
  qed
  then show ?case by simp
qed

subsection \<open>White space\<close>

lemma skip_ws_indent [simp]: "skip_ws (newline_indent k @ r) = skip_ws r"
proof -
  have "\<forall>c\<in>set (newline_indent k). is_json_ws c"
    by (auto simp: newline_indent_def is_json_ws_def str_def)
  then show ?thesis
    by (simp add: skip_ws_def dropWhile_append)
qed

lemma skip_ws_simps [simp]:
  "skip_ws (34 # r) = 34 # r" "skip_ws (44 # r) = 44 # r" "skip_ws (58 # r) = 58 # r"
  "skip_ws (91 # r) = 91 # r" "skip_ws (93 # r) = 93 # r" "skip_ws (123 # r) = 123 # r"
  "skip_ws (125 # r) = 125 # r" "skip_ws (32 # r) = skip_ws r" "skip_ws [] = []"
  by (simp_all add: skip_ws_def is_json_ws_def)

subsection \<open>Joined items\<close>

lemma join_Cons: "xs \<noteq> [] \<Longrightarrow> join sep (x # xs) = x @ sep @ join sep xs"
  by (cases xs) simp_all

lemma join_encoded_quote:
  assumes "vs \<noteq> []"
  shows "join sep (map encode_basestring_ascii vs) =
         34 # tl (join sep (map encode_basestring_ascii vs))"
proof (cases vs)
  case Nil
  with assms show ?thesis by simp
next
  case (Cons v vs')
  then show ?thesis
    by (cases vs') (simp_all add: encode_basestring_ascii_def)
qed

lemma item_not_Nil [simp]: "iterencode_item level item \<noteq> []"
  by (simp add: iterencode_item_def encode_basestring_ascii_def)

lemma join_items_quote:
  assumes "d \<noteq> []"
  shows "join sep (map (iterencode_item level) d) =
         34 # tl (join sep (map (iterencode_item level) d))"
proof (cases d)
  case Nil
  with assms show ?thesis by simp
next
  case (Cons item d')
  then show ?thesis
    by (cases d') (simp_all add: iterencode_item_def encode_basestring_ascii_def)
qed

subsection \<open>Arrays\<close>

lemma array_items_step:
  assumes "json_safe v" and "skip_ws R = nextchar # R'"
  shows "array_items (encode_basestring_ascii v @ R) =
           (if nextchar = 93 then Some ([v], R')
            else if nextchar = 44 then and_then v (array_items (skip_ws R'))
            else None)"
  using assms
  by (subst array_items.simps) (simp add: encode_basestring_ascii_def scanstring_escaped)

lemma array_items_join:
  assumes "vs \<noteq> []" and "list_all json_safe vs"
  shows "array_items (join (44 # newline_indent k) (map encode_basestring_ascii vs) @
                      newline_indent j @ 93 # rest) = Some (vs, rest)"
  using assms
proof (induction vs rule: list_nonempty_induct)
  case (single v)
  then show ?case
    by (simp add: array_items_step [where nextchar = 93 and R' = rest])
next
  case (cons v vs)
  let ?J = "join (44 # newline_indent k) (map encode_basestring_ascii vs)"
  from cons have IH: "array_items (?J @ newline_indent j @ 93 # rest) = Some (vs, rest)"
    by simp
  from cons.hyps have q: "?J = 34 # tl ?J"
    by (rule join_encoded_quote)
  have "skip_ws (newline_indent k @ ?J @ newline_indent j @ 93 # rest) =
        ?J @ newline_indent j @ 93 # rest"
    by (subst (1 2) q) simp
  with cons.prems cons.hyps IH show ?case
    by (simp add: join_Cons
        array_items_step [where nextchar = 44
          and R' = "newline_indent k @ ?J @ newline_indent j @ 93 # rest"] and_then_def)
qed

lemma JSONArray_encoded:
  assumes "list_all json_safe vs"
  shows "JSONArray (tl (iterencode_list level vs) @ rest) = Some (vs, rest)"
proof (cases "vs = []")
  case True
  then show ?thesis
    by (simp add: iterencode_list_def JSONArray_def str_def)
next
  case False
  let ?J = "join (44 # newline_indent (Suc level)) (map encode_basestring_ascii vs)"
  from False have q: "?J = 34 # tl ?J"
    by (rule join_encoded_quote)
  have "JSONArray (newline_indent (Suc level) @ ?J @ newline_indent level @ 93 # rest) =
        array_items (?J @ newline_indent level @ 93 # rest)"
    unfolding JSONArray_def by (subst (1 2) q) simp
  with False assms show ?thesis
    by (simp add: iterencode_list_def str_def array_items_join)
qed

lemma list_open: "iterencode_list level vs = 91 # tl (iterencode_list level vs)"
  by (simp add: iterencode_list_def str_def)

subsection \<open>Objects\<close>

lemma object_items_step:
  assumes "json_safe k" and "list_all json_safe vs" and "skip_ws R = nextchar # R'"
  shows "object_items (tl (iterencode_item level (k, vs)) @ R) =
           (if nextchar = 125 then Some ([(k, vs)], R')
            else if nextchar = 44 then
              (case skip_ws R' of
                 [] \<Rightarrow> None
               | quote # rest5 \<Rightarrow>
                   if quote \<noteq> 34 then None else and_then (k, vs) (object_items rest5))
            else None)"
proof -
  let ?L = "iterencode_list level vs"
  have "tl (iterencode_item level (k, vs)) @ R =
        concat (map escape_ascii k) @ 34 # (58 # 32 # ?L @ R)"
    by (simp add: iterencode_item_def encode_basestring_ascii_def str_def)
  moreover have "skip_ws (?L @ R) = 91 # tl ?L @ R"
    by (subst list_open) simp
  ultimately show ?thesis
    using assms
    by (subst object_items.simps) (simp add: scanstring_escaped JSONArray_encoded)
qed

lemma json_safe_dict_Cons:
  "json_safe_dict (item # d) \<longleftrightarrow>
     json_safe (fst item) \<and> list_all json_safe (snd item) \<and> json_safe_dict d"
  by (simp add: json_safe_dict_def)

lemma object_items_join:
  assumes "d \<noteq> []" and "json_safe_dict d"
  shows "object_items (tl (join (44 # newline_indent k) (map (iterencode_item level) d)) @
                       newline_indent j @ 125 # rest) = Some (d, rest)"
  using assms
proof (induction d rule: list_nonempty_induct)
  case (single item)
  then show ?case
    using object_items_step [of "fst item" "snd item" "newline_indent j @ 125 # rest" 125 rest level]
    by (simp add: json_safe_dict_Cons)
next
  case (cons item d)
  let ?J = "join (44 # newline_indent k) (map (iterencode_item level) d)"
  let ?R = "44 # newline_indent k @ ?J @ newline_indent j @ 125 # rest"
  from cons have IH: "object_items (tl ?J @ newline_indent j @ 125 # rest) = Some (d, rest)"
    by (simp add: json_safe_dict_Cons)
  from cons.hyps have q: "?J = 34 # tl ?J"
    by (rule join_items_quote)
  have s: "skip_ws (?J @ newline_indent j @ 125 # rest) =
        34 # tl ?J @ newline_indent j @ 125 # rest"
    by (subst q) simp
  have "tl (join (44 # newline_indent k) (map (iterencode_item level) (item # d))) @
          newline_indent j @ 125 # rest =
        tl (iterencode_item level (fst item, snd item)) @ ?R"
    using cons.hyps by (simp add: join_Cons)
  moreover from cons.prems
  have "object_items (tl (iterencode_item level (fst item, snd item)) @ ?R) =
        and_then (fst item, snd item) (object_items (tl ?J @ newline_indent j @ 125 # rest))"
    using object_items_step [of "fst item" "snd item" ?R 44
        "newline_indent k @ ?J @ newline_indent j @ 125 # rest" level]
    by (simp add: json_safe_dict_Cons s)
  ultimately show ?case
    using IH by (simp add: and_then_def)
qed

lemma dict_setitem_absent: "k \<notin> set (map fst d) \<Longrightarrow> dict_setitem d k vs = d @ [(k, vs)]"
  by (simp add: dict_setitem_def dict_contains_def)

lemma foldl_setitem_distinct:
  "distinct (map fst (acc @ d)) \<Longrightarrow>
   foldl (\<lambda>d item. dict_setitem d (fst item) (snd item)) acc d = acc @ d"
proof (induction d arbitrary: acc)
  case Nil
  show ?case by simp
next
  case (Cons item d)
  from Cons.prems have "dict_setitem acc (fst item) (snd item) = acc @ [item]"
    by (intro dict_setitem_absent [THEN trans]) auto
  with Cons.IH [of "acc @ [item]"] Cons.prems show ?case
    by simp
qed

lemma dict_of_pairs_distinct: "distinct (map fst d) \<Longrightarrow> dict_of_pairs d = d"
  using foldl_setitem_distinct [of "[]" d] by (simp add: dict_of_pairs_def)

lemma json_load_dump:
  assumes "json_safe_dict d" and "distinct (map fst d)"
  shows "json_load (json_dump d) = Some d"
proof (cases "d = []")
  case True
  then show ?thesis
    by (simp add: json_dump_def iterencode_dict_def json_load_def JSONObject_def str_def
        dict_of_pairs_def)
next
  case False
  let ?J = "join (44 # newline_indent (Suc 0)) (map (iterencode_item (Suc 0)) d)"
  from False have q: "?J = 34 # tl ?J"
    by (rule join_items_quote)
  have "JSONObject (newline_indent (Suc 0) @ ?J @ newline_indent 0 @ [125]) =
        object_items (tl ?J @ newline_indent 0 @ [125])"
    unfolding JSONObject_def by (subst q) simp
  also have "\<dots> = Some (d, [])"
    using False assms(1) by (rule object_items_join)
  finally show ?thesis
    using False assms(2)
    by (simp add: json_dump_def iterencode_dict_def json_load_def str_def dict_of_pairs_distinct)
qed

section \<open>The claims\<close>

text \<open>
  C1 (as amended).  Blank lines are skipped only where the trim of the whole block removes
  them: space and blank lines in front of a block and behind it do not change what the
  Course Grouper returns.  A blank line that is left after the trim, one between two
  other lines, is not skipped: the loop body raises on it, and the grouper fails.
\<close>

theorem blank_lines_skipped_only_at_ends:
  "(blank a \<and> blank b \<longrightarrow> process_courses (a @ s @ b) = process_courses s) \<and>
   (blank l \<longrightarrow> loop_body d l = Inl NotEnoughValues) \<and>
   ((\<exists>l\<in>set (str_splitlines (str_strip s)). blank l) \<longrightarrow>
      (\<exists>e. process_courses s = Inl e \<and> (e = NotEnoughValues \<or> e = TooManyValues)))"
proof (intro conjI impI)
  assume "blank a \<and> blank b"
  then show "process_courses (a @ s @ b) = process_courses s"
    by (simp add: process_courses_pad)
next
  assume "blank l"
  then show "loop_body d l = Inl NotEnoughValues"
    by (simp add: loop_body_eq count_blank)
next
  assume "\<exists>l\<in>set (str_splitlines (str_strip s)). blank l"
  then obtain l where "l \<in> set (str_splitlines (str_strip s))" "count_list l hyphen \<noteq> 1"
    by (auto simp: count_blank)
  then show "\<exists>e. process_courses s = Inl e \<and> (e = NotEnoughValues \<or> e = TooManyValues)"
    by (intro process_courses_raises) blast
qed

theorem blank_lines_skipped_only_at_ends_witness:
  "process_courses (str ''\<newline> \<newline>'' @ str ''CS-101\<newline>MATH-201'' @ str ''\<newline>\<newline>'') =
     Inr [(str ''CS'', [str ''101'']), (str ''MATH'', [str ''201''])] \<and>
   loop_body [(str ''CS'', [str ''101''])] [] = Inl NotEnoughValues \<and>
   process_courses (str ''CS-101\<newline>\<newline>MATH-201'') = Inl NotEnoughValues"
proof -
  have b: "blank (str ''\<newline> \<newline>'') \<and> blank (str ''\<newline>\<newline>'')"
    by (simp add: script_defs)
  have r: "process_courses (str ''CS-101\<newline>MATH-201'') =
           Inr [(str ''CS'', [str ''101'']), (str ''MATH'', [str ''201''])]"
    by (simp add: script_defs)
  have l: "\<exists>l\<in>set (str_splitlines (str_strip (str ''CS-101\<newline>\<newline>MATH-201''))). blank l"
    by (simp add: script_defs)
  have n: "process_courses (str ''CS-101\<newline>\<newline>MATH-201'') \<noteq> Inl TooManyValues"
    by (simp add: script_defs)
  note inst = blank_lines_skipped_only_at_ends
    [of "str ''\<newline> \<newline>''" "str ''\<newline>\<newline>''" _ "[]" "[(str ''CS'', [str ''101''])]"]
  from inst [of "str ''CS-101\<newline>MATH-201''"] b r
  have 1: "process_courses (str ''\<newline> \<newline>'' @ str ''CS-101\<newline>MATH-201'' @ str ''\<newline>\<newline>'') =
     Inr [(str ''CS'', [str ''101'']), (str ''MATH'', [str ''201''])]"
    by simp
  from inst [of "str ''CS-101\<newline>MATH-201''"]
  have 2: "loop_body [(str ''CS'', [str ''101''])] [] = Inl NotEnoughValues"
    by simp
  from inst [of "str ''CS-101\<newline>\<newline>MATH-201''"] l n
  have 3: "process_courses (str ''CS-101\<newline>\<newline>MATH-201'') = Inl NotEnoughValues"
    by auto
  from 1 2 3 show ?thesis by simp
qed

theorem blank_line_inside_counterexample:
  "str_splitlines (str_strip (str ''CS-101\<newline>\<newline>MATH-201'')) =
     [str ''CS-101'', [], str ''MATH-201''] \<and>
   process_courses (str ''CS-101\<newline>\<newline>MATH-201'') \<noteq>
     Inr [(str ''CS'', [str ''101'']), (str ''MATH'', [str ''201''])] \<and>
   process_courses (str ''CS-101\<newline>\<newline>MATH-201'') = Inl NotEnoughValues"
  by (simp add: script_defs)

text \<open>
  C2 (as amended).  A line with more than one separator is split at every separator, into
  more than two parts, so that unpacking the parts into subject and course number raises
  (too many values); nothing is taken from the line, and a block that contains such a
  line makes the Course Grouper fail.
\<close>

theorem several_separators_raise:
  assumes "1 < count_list line hyphen"
  shows "length (str_split hyphen line) = Suc (count_list line hyphen) \<and>
         loop_body d line = Inl TooManyValues \<and>
         (line \<in> set (str_splitlines s) \<longrightarrow>
            (\<exists>e. process_courses s = Inl e \<and> (e = NotEnoughValues \<or> e = TooManyValues)))"
proof (intro conjI impI)
  show "length (str_split hyphen line) = Suc (count_list line hyphen)"
    by (rule length_split)
  from assms show "loop_body d line = Inl TooManyValues"
    by (simp add: loop_body_eq)
  assume l: "line \<in> set (str_splitlines s)"
  from assms have "\<not> blank line"
    using count_blank [of line] by auto
  with l assms show "\<exists>e. process_courses s = Inl e \<and> (e = NotEnoughValues \<or> e = TooManyValues)"
    by (intro input_line_raises [of line]) auto
qed

theorem several_separators_raise_witness:
  "length (str_split hyphen (str ''CS-101-A'')) = 3 \<and>
   loop_body [] (str ''CS-101-A'') = Inl TooManyValues \<and>
   process_courses (str ''MATH-201\<newline>CS-101-A'') = Inl TooManyValues"
proof -
  have c: "1 < count_list (str ''CS-101-A'') hyphen"
    by (simp add: script_defs)
  have l: "str ''CS-101-A'' \<in> set (str_splitlines (str ''MATH-201\<newline>CS-101-A''))"
    by (simp add: script_defs)
  have n: "process_courses (str ''MATH-201\<newline>CS-101-A'') \<noteq> Inl NotEnoughValues"
    by (simp add: script_defs)
  have "count_list (str ''CS-101-A'') hyphen = 2"
    by (simp add: script_defs)
  with several_separators_raise [OF c, of "[]" "str ''MATH-201\<newline>CS-101-A''"] l n
  show ?thesis by auto
qed

theorem first_separator_counterexample:
  "str_split hyphen (str ''CS-101-A'') = [str ''CS'', str ''101'', str ''A''] \<and>
   process_courses (str ''CS-101-A'') \<noteq> Inr [(str ''CS'', [str ''101-A''])] \<and>
   process_courses (str ''CS-101-A'') = Inl TooManyValues"
  by (simp add: script_defs)

text \<open>
  C3.  When the input block has a line that is not blank and contains no separator, the
  Course Grouper raises a \<open>ValueError\<close>; the script does not catch it, so the run ends
  there: nothing is written to any file and nothing is printed.
\<close>

theorem missing_separator_raises:
  assumes "l \<in> set (str_splitlines s)" and "\<not> blank l" and "hyphen \<notin> set l"
  shows "\<exists>e. process_courses s = Inl e \<and> (e = NotEnoughValues \<or> e = TooManyValues) \<and>
           run_script s w = (Some e, w)"
proof -
  from assms(3) have "count_list l hyphen \<noteq> 1"
    by (simp add: count_list_0_iff)
  from input_line_raises [OF assms(1,2) this]
  obtain e where "process_courses s = Inl e" "e = NotEnoughValues \<or> e = TooManyValues"
    by blast
  then show ?thesis
    by (auto simp: run_script_raises)
qed

theorem missing_separator_raises_witness:
  "process_courses (str ''CS101'') = Inl NotEnoughValues \<and>
   run_script (str ''CS101'') fresh_world = (Some NotEnoughValues, fresh_world) \<and>
   files (snd (run_script (str ''CS101'') fresh_world)) (str ''subject_data.json'') = None"
proof -
  have l: "str ''CS101'' \<in> set (str_splitlines (str ''CS101''))"
    by (simp add: script_defs)
  have b: "\<not> blank (str ''CS101'')"
    by (simp add: script_defs)
  have h: "hyphen \<notin> set (str ''CS101'')"
    by (simp add: script_defs)
  have p: "process_courses (str ''CS101'') = Inl NotEnoughValues"
    by (simp add: script_defs)
  from missing_separator_raises [OF l b h, of fresh_world] p
  have "run_script (str ''CS101'') fresh_world = (Some NotEnoughValues, fresh_world)"
    by auto
  with p show ?thesis
    by (simp add: fresh_world_def)
qed

text \<open>
  C4 (as amended).  For every well-formed input block that has no blank line between its
  first and its last line that is not blank, the Course Grouper returns a mapping; the
  (subject, course number) pairs it holds are those of the lines of the trimmed block,
  one for each line, and the lengths of its value lists add up to the number of lines of
  the input that are not blank.
\<close>

theorem one_pair_for_each_line:
  assumes "well_formed_block s" and "no_blank_inside s"
  shows "\<exists>d. process_courses s = Inr d \<and>
           mset (dict_pairs d) =
             mset (map (\<lambda>l. (line_subject l, line_number l)) (str_splitlines (str_strip s))) \<and>
           total_courses d = length (filter (\<lambda>l. \<not> blank l) (str_splitlines s))"
proof -
  let ?d = "foldl add_line [] (str_splitlines (str_strip s))"
  have "mset (dict_pairs ?d) =
        mset (map (\<lambda>l. (line_subject l, line_number l)) (str_splitlines (str_strip s)))"
    using mset_pairs_foldl [of "[]" "str_splitlines (str_strip s)"]
    by (simp add: dict_pairs_def)
  moreover have "total_courses ?d = length (filter (\<lambda>l. \<not> blank l) (str_splitlines s))"
    using total_foldl [of "[]" "str_splitlines (str_strip s)"]
    by (simp add: total_courses_def count_nonblank_lines [OF assms(2)])
  ultimately show ?thesis
    using process_courses_returns [OF assms] by simp
qed

theorem one_pair_for_each_line_witness:
  "process_courses (str ''\<newline> CS-101\<newline>MATH-201\<newline>CS-101\<newline> \<newline>'') =
     Inr [(str ''CS'', [str ''101'', str ''101'']), (str ''MATH'', [str ''201''])] \<and>
   total_courses [(str ''CS'', [str ''101'', str ''101'']), (str ''MATH'', [str ''201''])] =
     length (filter (\<lambda>l. \<not> blank l)
       (str_splitlines (str ''\<newline> CS-101\<newline>MATH-201\<newline>CS-101\<newline> \<newline>'')))"
proof -
  let ?s = "str ''\<newline> CS-101\<newline>MATH-201\<newline>CS-101\<newline> \<newline>''"
  have wf: "well_formed_block ?s"
    by (simp add: script_defs)
  have nb: "no_blank_inside ?s"
    by (simp add: script_defs)
  have p: "process_courses ?s =
     Inr [(str ''CS'', [str ''101'', str ''101'']), (str ''MATH'', [str ''201''])]"
    by (simp add: script_defs)
  from one_pair_for_each_line [OF wf nb] p show ?thesis
    by auto
qed

theorem well_formed_block_counterexample:
  "well_formed_block (str ''CS-101\<newline>\<newline>MATH-201'') \<and>
   \<not> no_blank_inside (str ''CS-101\<newline>\<newline>MATH-201'') \<and>
   process_courses (str ''CS-101\<newline>\<newline>MATH-201'') = Inl NotEnoughValues"
  by (simp add: script_defs)

text \<open>
  C5 (as amended).  For every well-formed input block that has no blank line between its
  first and its last line that is not blank, the Course Grouper returns a mapping, and
  the keys of the mapping are the subjects of the lines in the order of their first
  appearance, each once.  For \<open>"CS-101\nCS-102\nMATH-201"\<close> the mapping has the key
  \<open>CS\<close> before the key \<open>MATH\<close>.
\<close>

theorem keys_in_order_of_first_appearance:
  assumes "well_formed_block s" and "no_blank_inside s"
  shows "(\<exists>d. process_courses s = Inr d \<and>
            distinct (map fst d) \<and>
            map fst d = first_appearance (map line_subject (str_splitlines (str_strip s)))) \<and>
         process_courses (str ''CS-101\<newline>CS-102\<newline>MATH-201'') =
           Inr [(str ''CS'', [str ''101'', str ''102'']), (str ''MATH'', [str ''201''])]"
proof (intro conjI)
  let ?d = "foldl add_line [] (str_splitlines (str_strip s))"
  have keys: "map fst ?d = first_appearance (map line_subject (str_splitlines (str_strip s)))"
    by (simp add: keys_foldl)
  then have "distinct (map fst ?d)"
    by simp
  with keys process_courses_returns [OF assms]
  show "\<exists>d. process_courses s = Inr d \<and>
            distinct (map fst d) \<and>
            map fst d = first_appearance (map line_subject (str_splitlines (str_strip s)))"
    by blast
next
  show "process_courses (str ''CS-101\<newline>CS-102\<newline>MATH-201'') =
     Inr [(str ''CS'', [str ''101'', str ''102'']), (str ''MATH'', [str ''201''])]"
    by (simp add: script_defs)
qed

theorem keys_in_order_of_first_appearance_witness:
  "process_courses (str ''\<newline>MATH-201\<newline>CS-101\<newline>MATH-202\<newline>CS-102\<newline>'') =
     Inr [(str ''MATH'', [str ''201'', str ''202'']), (str ''CS'', [str ''101'', str ''102''])] \<and>
   first_appearance (map line_subject
       (str_splitlines
         (str_strip (str ''\<newline>MATH-201\<newline>CS-101\<newline>MATH-202\<newline>CS-102\<newline>'')))) =
     [str ''MATH'', str ''CS'']"
proof -
  let ?s = "str ''\<newline>MATH-201\<newline>CS-101\<newline>MATH-202\<newline>CS-102\<newline>''"
  let ?d = "[(str ''MATH'', [str ''201'', str ''202'']), (str ''CS'', [str ''101'', str ''102''])]"
  have wf: "well_formed_block ?s"
    by (simp add: script_defs)
  have nb: "no_blank_inside ?s"
    by (simp add: script_defs)
  have p: "process_courses ?s = Inr ?d"
    by (simp add: script_defs)
  from keys_in_order_of_first_appearance [OF wf nb]
  obtain d where "process_courses ?s = Inr d"
    and "map fst d = first_appearance (map line_subject (str_splitlines (str_strip ?s)))"
    by blast
  with p have "map fst ?d = first_appearance (map line_subject (str_splitlines (str_strip ?s)))"
    by simp
  with p show ?thesis
    by simp
qed

theorem key_order_counterexample:
  "well_formed_block (str ''CS-101\<newline>\<newline>CS-102\<newline>MATH-201'') \<and>
   str_splitlines (str_strip (str ''CS-101\<newline>\<newline>CS-102\<newline>MATH-201'')) =
     [str ''CS-101'', [], str ''CS-102'', str ''MATH-201''] \<and>
   process_courses (str ''CS-101\<newline>\<newline>CS-102\<newline>MATH-201'') = Inl NotEnoughValues"
  by (simp add: script_defs)

text \<open>
  C6 (as amended).  For every well-formed input block that has no blank line between its
  first and its last line that is not blank, the Course Grouper returns a mapping in
  which every subject of a line is bound to the course numbers of the lines of that
  subject, in the order of the lines and with every repetition kept.  For
  \<open>"CS-101\nCS-101"\<close> the subject \<open>CS\<close> is bound to \<open>["101", "101"]\<close>.
\<close>

theorem numbers_in_input_order:
  assumes "well_formed_block s" and "no_blank_inside s"
  shows "(\<exists>d. process_courses s = Inr d \<and>
            distinct (map fst d) \<and>
            (\<forall>k\<in>set (map line_subject (str_splitlines (str_strip s))).
               map_of d k =
                 Some (map line_number
                        (filter (\<lambda>l. line_subject l = k) (str_splitlines (str_strip s)))))) \<and>
         process_courses (str ''CS-101\<newline>CS-101'') =
           Inr [(str ''CS'', [str ''101'', str ''101''])]"
proof (intro conjI)
  let ?d = "foldl add_line [] (str_splitlines (str_strip s))"
  from process_courses_returns [OF assms] have r: "process_courses s = Inr ?d" .
  then have "distinct (map fst ?d)"
    by (rule process_courses_distinct)
  moreover have "\<forall>k\<in>set (map line_subject (str_splitlines (str_strip s))).
      map_of ?d k =
        Some (map line_number
               (filter (\<lambda>l. line_subject l = k) (str_splitlines (str_strip s))))"
    by (simp add: values_foldl)
  ultimately
  show "\<exists>d. process_courses s = Inr d \<and>
            distinct (map fst d) \<and>
            (\<forall>k\<in>set (map line_subject (str_splitlines (str_strip s))).
               map_of d k =
                 Some (map line_number
                        (filter (\<lambda>l. line_subject l = k) (str_splitlines (str_strip s)))))"
    using r by blast
next
  show "process_courses (str ''CS-101\<newline>CS-101'') = Inr [(str ''CS'', [str ''101'', str ''101''])]"
    by (simp add: script_defs)
qed

theorem numbers_in_input_order_witness:
  "process_courses (str ''CS-102\<newline>MATH-201\<newline>CS-101\<newline>CS-102\<newline>\<newline>'') =
     Inr [(str ''CS'', [str ''102'', str ''101'', str ''102'']), (str ''MATH'', [str ''201''])] \<and>
   map line_number (filter (\<lambda>l. line_subject l = str ''CS'')
       (str_splitlines
         (str_strip (str ''CS-102\<newline>MATH-201\<newline>CS-101\<newline>CS-102\<newline>\<newline>'')))) =
     [str ''102'', str ''101'', str ''102'']"
proof -
  let ?s = "str ''CS-102\<newline>MATH-201\<newline>CS-101\<newline>CS-102\<newline>\<newline>''"
  let ?d = "[(str ''CS'', [str ''102'', str ''101'', str ''102'']), (str ''MATH'', [str ''201''])]"
  have wf: "well_formed_block ?s"
    by (simp add: script_defs)
  have nb: "no_blank_inside ?s"
    by (simp add: script_defs)
  have p: "process_courses ?s = Inr ?d"
    by (simp add: script_defs)
  have k: "str ''CS'' \<in> set (map line_subject (str_splitlines (str_strip ?s)))"
    by (simp add: script_defs)
  from numbers_in_input_order [OF wf nb]
  obtain d where "process_courses ?s = Inr d"
    and "\<forall>k\<in>set (map line_subject (str_splitlines (str_strip ?s))).
           map_of d k =
             Some (map line_number
                    (filter (\<lambda>l. line_subject l = k) (str_splitlines (str_strip ?s))))"
    by blast
  with p k have "map_of ?d (str ''CS'') =
        Some (map line_number
               (filter (\<lambda>l. line_subject l = str ''CS'') (str_splitlines (str_strip ?s))))"
    by auto
  with p show ?thesis
    by (simp add: str_def)
qed

theorem number_order_counterexample:
  "well_formed_block (str ''CS-101\<newline>\<newline>CS-101'') \<and>
   str_splitlines (str_strip (str ''CS-101\<newline>\<newline>CS-101'')) = [str ''CS-101'', [], str ''CS-101''] \<and>
   process_courses (str ''CS-101\<newline>\<newline>CS-101'') = Inl NotEnoughValues"
  by (simp add: script_defs)

text \<open>
  C7.  The Course Grouper is deterministic: when one run on a text returns a mapping,
  every run on that text returns the same mapping, with the same keys in the same order
  and the same list for each key, and it is the mapping \<open>process_courses\<close> computes.
\<close>

theorem grouper_deterministic:
  assumes "run_of s (Inr d1)" and "run_of s r"
  shows "r = Inr d1 \<and> process_courses s = Inr d1"
  using assms by (simp add: run_of_iff)

theorem grouper_deterministic_witness:
  "run_of (str ''CS-101\<newline>MATH-201\<newline>CS-102'')
     (Inr [(str ''CS'', [str ''101'', str ''102'']), (str ''MATH'', [str ''201''])]) \<and>
   process_courses (str ''CS-101\<newline>MATH-201\<newline>CS-102'') =
     Inr [(str ''CS'', [str ''101'', str ''102'']), (str ''MATH'', [str ''201''])]"
proof -
  have r: "run_of (str ''CS-101\<newline>MATH-201\<newline>CS-102'')
     (Inr [(str ''CS'', [str ''101'', str ''102'']), (str ''MATH'', [str ''201''])])"
    by (simp add: run_of_iff script_defs)
  from grouper_deterministic [OF r r] r show ?thesis
    by simp
qed

text \<open>
  C8 (as amended).  For every mapping the Course Grouper returns whose keys and course
  numbers are made of code points below U+110000 and have no high surrogate directly
  followed by a low surrogate, parsing the JSON text that the script writes gives the
  mapping back: the same keys in the same order, each with the same list.
\<close>

theorem json_round_trip:
  assumes "process_courses s = Inr d" and "json_safe_dict d"
  shows "json_load (json_dump d) = Some d \<and>
         (can_open w (str ''subject_data.json'') \<longrightarrow>
            (\<exists>text. files (snd (run_script s w)) (str ''subject_data.json'') = Some text \<and>
                    json_load text = Some d))"
proof -
  from assms(1) have "distinct (map fst d)"
    by (rule process_courses_distinct)
  with assms(2) have "json_load (json_dump d) = Some d"
    by (rule json_load_dump)
  with assms(1) show ?thesis
    by (simp add: run_script_def)
qed

theorem json_round_trip_witness:
  "process_courses (str ''CS-101\<newline>MATH-201\<newline>'' @ [233, 34, 45, 128512, 92, 9] @ str ''\<newline>CS-102'') =
     Inr [(str ''CS'', [str ''101'', str ''102'']), (str ''MATH'', [str ''201'']),
          ([233, 34], [[128512, 92, 9]])] \<and>
   json_load (json_dump [(str ''CS'', [str ''101'', str ''102'']), (str ''MATH'', [str ''201'']),
          ([233, 34], [[128512, 92, 9]])]) =
     Some [(str ''CS'', [str ''101'', str ''102'']), (str ''MATH'', [str ''201'']),
          ([233, 34], [[128512, 92, 9]])]"
proof -
  let ?s = "str ''CS-101\<newline>MATH-201\<newline>'' @ [233, 34, 45, 128512, 92, 9] @ str ''\<newline>CS-102''"
  let ?d = "[(str ''CS'', [str ''101'', str ''102'']), (str ''MATH'', [str ''201'']),
          ([233, 34], [[128512, 92, 9]])]"
  have p: "process_courses ?s = Inr ?d"
    by (simp add: script_defs)
  have safe: "json_safe_dict ?d"
    by (simp add: json_safe_dict_def json_safe_def high_surrogate_def low_surrogate_def str_def)
  from json_round_trip [OF p safe] p show ?thesis
    by simp
qed

theorem surrogate_pair_counterexample:
  "process_courses [55296, 56320, 45, 49] = Inr [([55296, 56320], [[49]])] \<and>
   json_dump [([55296, 56320], [[49]])] =
     str ''{\<newline>  \"'' @ [92] @ str ''ud800'' @ [92] @ str ''udc00\": [\<newline>    \"1\"\<newline>  ]\<newline>}'' \<and>
   json_load (json_dump [([55296, 56320], [[49]])]) = Some [([65536], [[49]])]"
  by (simp add: json_defs)

text \<open>
  C9.  For a block that is empty or has only whitespace in it, the Course Grouper
  returns the empty mapping.  So does it for the constant \<open>courses\<close> of the script, and
  the script then writes the empty JSON object to \<open>subject_data.json\<close>.
\<close>

theorem whitespace_only_gives_empty_mapping:
  "((\<forall>c\<in>set s. isspace c) \<longrightarrow>
      str_strip s = [] \<and> str_splitlines (str_strip s) = [] \<and> process_courses s = Inr []) \<and>
   process_courses courses = Inr [] \<and>
   json_dump [] = str ''{}'' \<and>
   (can_open w (str ''subject_data.json'') \<longrightarrow>
      fst (main w) = None \<and>
      files (snd (main w)) (str ''subject_data.json'') = Some (str ''{}''))"
proof (intro conjI impI)
  assume "\<forall>c\<in>set s. isspace c"
  then show e: "str_strip s = []"
    by (simp add: strip_blank blank_iff)
  then show "str_splitlines (str_strip s) = []"
    by simp
  from e show "process_courses s = Inr []"
    by (simp add: process_courses_def)
next
  show p: "process_courses courses = Inr []"
    by (simp add: script_defs)
  show j: "json_dump [] = str ''{}''"
    by (simp add: json_dump_def iterencode_dict_def)
  assume "can_open w (str ''subject_data.json'')"
  with p j show "fst (main w) = None"
    and "files (snd (main w)) (str ''subject_data.json'') = Some (str ''{}'')"
    by (simp_all add: main_def run_script_def)
qed

theorem whitespace_only_gives_empty_mapping_witness:
  "process_courses [32, 9, 10, 13, 10, 32] = Inr [] \<and>
   fst (main fresh_world) = None \<and>
   files (snd (main fresh_world)) (str ''subject_data.json'') = Some (str ''{}'')"
proof -
  have s: "\<forall>c\<in>set [32, 9, 10, 13, 10, 32]. isspace c"
    by (simp add: isspace_def)
  have o: "can_open fresh_world (str ''subject_data.json'')"
    by (simp add: fresh_world_def)
  from whitespace_only_gives_empty_mapping [of "[32, 9, 10, 13, 10, 32]" fresh_world] s o
  show ?thesis by blast
qed

text \<open>
  C10.  Every key is bound to a list that is not empty, in the dictionary after any
  number of rounds of the loop and in the mapping returned.  A round of the loop binds a
  key that was absent to a list of one element, puts one element at the end of the list
  of a key that was present, and leaves every other key as it was.
\<close>

theorem values_never_empty:
  "(for_lines (take n (str_splitlines (str_strip s))) [] = Inr d \<longrightarrow> nonempty_values d) \<and>
   (process_courses s = Inr d \<longrightarrow> nonempty_values d) \<and>
   (loop_body d0 line = Inr d' \<longrightarrow>
      map_of d' (line_subject line) =
        Some ((case map_of d0 (line_subject line) of None \<Rightarrow> [] | Some vs \<Rightarrow> vs) @
              [line_number line]) \<and>
      (\<forall>k. k \<noteq> line_subject line \<longrightarrow> map_of d' k = map_of d0 k))"
proof (intro conjI impI allI)
  have ne: "nonempty_values (foldl add_line [] ls)" for ls
    by (intro nonempty_foldl) (simp add: nonempty_values_def)
  {
    assume "for_lines (take n (str_splitlines (str_strip s))) [] = Inr d"
    then show "nonempty_values d"
      by (simp add: for_lines_Inr_iff ne)
  next
    assume "process_courses s = Inr d"
    then show "nonempty_values d"
      by (simp add: process_courses_Inr_iff ne)
  }
  assume "loop_body d0 line = Inr d'"
  then have d': "d' = add_line d0 line"
    by (simp add: loop_body_eq split: if_splits)
  show "map_of d' (line_subject line) =
        Some ((case map_of d0 (line_subject line) of None \<Rightarrow> [] | Some vs \<Rightarrow> vs) @
              [line_number line])"
    by (simp add: d' add_line_def map_of_add_course)
  fix k
  assume "k \<noteq> line_subject line"
  then show "map_of d' k = map_of d0 k"
    by (simp add: d' add_line_def map_of_add_course)
qed

theorem values_never_empty_witness:
  "for_lines (take 2 (str_splitlines (str_strip (str ''CS-101\<newline>MATH-201\<newline>CS-102'')))) [] =
     Inr [(str ''CS'', [str ''101'']), (str ''MATH'', [str ''201''])] \<and>
   nonempty_values [(str ''CS'', [str ''101'']), (str ''MATH'', [str ''201''])] \<and>
   loop_body [(str ''CS'', [str ''101'']), (str ''MATH'', [str ''201''])] (str ''CS-102'') =
     Inr [(str ''CS'', [str ''101'', str ''102'']), (str ''MATH'', [str ''201''])] \<and>
   map_of [(str ''CS'', [str ''101'', str ''102'']), (str ''MATH'', [str ''201''])] (str ''MATH'') =
     Some [str ''201'']"
proof -
  let ?s = "str ''CS-101\<newline>MATH-201\<newline>CS-102''"
  let ?d = "[(str ''CS'', [str ''101'']), (str ''MATH'', [str ''201''])]"
  let ?d' = "[(str ''CS'', [str ''101'', str ''102'']), (str ''MATH'', [str ''201''])]"
  have two: "take 2 xs = (case xs of [] \<Rightarrow> [] | x # ys \<Rightarrow> x # (case ys of [] \<Rightarrow> [] | y # zs \<Rightarrow> [y]))"
    for xs :: "pystr list"
    by (simp add: numeral_2_eq_2 split: list.splits)
  have f: "for_lines (take 2 (str_splitlines (str_strip ?s))) [] = Inr ?d"
    by (simp add: two script_defs)
  have b: "loop_body ?d (str ''CS-102'') = Inr ?d'"
    by (simp add: script_defs)
  have k: "str ''MATH'' \<noteq> line_subject (str ''CS-102'')"
    by (simp add: script_defs)
  from values_never_empty [of 2 ?s ?d ?d "str ''CS-102''" ?d'] f b k
  have "nonempty_values ?d" and "map_of ?d' (str ''MATH'') = map_of ?d (str ''MATH'')"
    by blast+
  with f b show ?thesis
    by (simp add: str_def)
qed

end
